theory Spec2Isabelle
  imports
    Main
    "HOL-Library.Product_Lexorder"
    "HOL-Library.Sublist"
    "HOL-Library.Multiset"
begin

section \<open>Python values used by validasi.py\<close>

text \<open>
  A Python \<open>str\<close> is a sequence of Unicode code points, and \<open>len\<close> and slicing count
  code points. A string is therefore a list of code points (natural numbers); \<open>lit\<close>
  turns an ASCII literal of the source into such a list.
\<close>

type_synonym str = "nat list"

definition lit :: "string \<Rightarrow> str" where
  "lit s = map of_char s"

text \<open>\<open>str(n)\<close> for an integer: decimal digits, a leading minus sign when negative.\<close>

fun str_nat :: "nat \<Rightarrow> str" where
  "str_nat n = (if n < 10 then [48 + n] else str_nat (n div 10) @ [48 + n mod 10])"

declare str_nat.simps [simp del]

definition str_int :: "int \<Rightarrow> str" where
  "str_int i = (if i < 0 then 45 # str_nat (nat (- i)) else str_nat (nat i))"

text \<open>
  Slicing never raises: a negative bound counts from the end, and every bound is
  clamped to the range from 0 to the length. \<open>slice_to j s\<close> is \<open>s[:j]\<close> and
  \<open>slice_from i s\<close> is \<open>s[i:]\<close>.
\<close>

definition slice_bound :: "int \<Rightarrow> nat \<Rightarrow> nat" where
  "slice_bound i n =
     (if i < 0 then (if i + int n < 0 then 0 else nat (i + int n))
      else (if int n < i then n else nat i))"

definition slice_to :: "int \<Rightarrow> 'a list \<Rightarrow> 'a list" where
  "slice_to j s = take (slice_bound j (length s)) s"

definition slice_from :: "int \<Rightarrow> 'a list \<Rightarrow> 'a list" where
  "slice_from i s = drop (slice_bound i (length s)) s"

text \<open>
  \<open>str.isspace\<close> on one code point, \<open>str.strip()\<close>, \<open>str.startswith\<close> and
  \<open>str.splitlines()\<close> (a carriage return followed by a line feed is one boundary, and a
  final boundary opens no further line).
\<close>

definition isspace :: "nat \<Rightarrow> bool" where
  "isspace c \<longleftrightarrow>
     (9 \<le> c \<and> c \<le> 13) \<or> (28 \<le> c \<and> c \<le> 32) \<or> c = 133 \<or> c = 160 \<or> c = 5760 \<or>
     (8192 \<le> c \<and> c \<le> 8202) \<or> c = 8232 \<or> c = 8233 \<or> c = 8239 \<or> c = 8287 \<or> c = 12288"

definition strip :: "str \<Rightarrow> str" where
  "strip s = rev (dropWhile isspace (rev (dropWhile isspace s)))"

definition startswith :: "str \<Rightarrow> str \<Rightarrow> bool" where
  "startswith s p \<longleftrightarrow> take (length p) s = p"

definition linebreak :: "nat \<Rightarrow> bool" where
  "linebreak c \<longleftrightarrow>
     (10 \<le> c \<and> c \<le> 13) \<or> (28 \<le> c \<and> c \<le> 30) \<or> c = 133 \<or> c = 8232 \<or> c = 8233"

fun splitlines_acc :: "str \<Rightarrow> str \<Rightarrow> str list" where
  "splitlines_acc cur [] = (if cur = [] then [] else [cur])"
| "splitlines_acc cur [c] = (if linebreak c then [cur] else [cur @ [c]])"
| "splitlines_acc cur (c # d # cs) =
     (if c = 13 \<and> d = 10 then cur # splitlines_acc [] cs
      else if linebreak c then cur # splitlines_acc [] (d # cs)
      else splitlines_acc (cur @ [c]) (d # cs))"

definition splitlines :: "str \<Rightarrow> str list" where
  "splitlines s = splitlines_acc [] s"

text \<open>The format specifications \<open>:2d\<close> (right-aligned) and \<open>:20s\<close> (left-aligned).\<close>

definition rjust :: "nat \<Rightarrow> str \<Rightarrow> str" where
  "rjust w s = replicate (w - length s) 32 @ s"

definition ljust :: "nat \<Rightarrow> str \<Rightarrow> str" where
  "ljust w s = s @ replicate (w - length s) 32"

text \<open>\<open>enumerate(xs, i)\<close> and \<open>sep.join(xs)\<close>.\<close>

fun enumerate_from :: "int \<Rightarrow> 'a list \<Rightarrow> (int \<times> 'a) list" where
  "enumerate_from i [] = []"
| "enumerate_from i (x # xs) = (i, x) # enumerate_from (i + 1) xs"

fun join :: "str \<Rightarrow> str list \<Rightarrow> str" where
  "join sep [] = []"
| "join sep [x] = x"
| "join sep (x # y # ys) = x @ sep @ join sep (y # ys)"

section \<open>Reading the key file\<close>

text \<open>
  The key file as \<open>read_keys\<close> finds it: missing, present but failing in
  \<open>read_text\<close> (with the exception's text), or present with the text that
  \<open>read_text\<close> returns.
\<close>

datatype path_state = Missing | Unreadable str | Contents str

datatype exn = FileNotFoundError str | Exception str

fun exn_text :: "exn \<Rightarrow> str" where
  "exn_text (FileNotFoundError m) = m"
| "exn_text (Exception m) = m"

text \<open>The loop of \<open>read_keys\<close> over the lines, \<open>keys\<close> being the list built so far.\<close>

fun keys_loop :: "str list \<Rightarrow> str list \<Rightarrow> str list" where
  "keys_loop keys [] = keys"
| "keys_loop keys (line # rest) =
     (let s = strip line
      in if s = [] \<or> startswith s (lit ''#'') then keys_loop keys rest
         else keys_loop (keys @ [s]) rest)"

definition read_keys :: "str \<Rightarrow> path_state \<Rightarrow> exn + str list" where
  "read_keys path p =
     (case p of
        Missing \<Rightarrow> Inl (FileNotFoundError (lit ''Key file not found: '' @ path))
      | Unreadable m \<Rightarrow> Inl (Exception m)
      | Contents text \<Rightarrow> Inr (keys_loop [] (splitlines text)))"

section \<open>Masking\<close>

definition mask_key :: "str \<Rightarrow> str" where
  "mask_key k =
     (if length k \<le> 10 then slice_to 2 k @ lit ''...'' @ slice_from (- 2) k
      else slice_to 4 k @ lit ''...'' @ slice_from (- 4) k)"

section \<open>One request per key\<close>

text \<open>
  The request that \<open>check_key_requests\<close> hands to \<open>requests.get\<close>, and what comes
  back: an exception with its text, or a response with its status code and the body text
  (the re-serialised JSON body, or the raw text when the body is not JSON). The timeout
  is a float handed through to the library and is left out. Nothing that
  \<open>check_key_requests\<close> does can raise outside its \<open>try\<close>.
\<close>

record request =
  url :: str
  headers :: "(str \<times> str) list"
  params :: "(str \<times> str) list option"

datatype http_outcome = Raised str | Response int str

definition request_for :: "str \<Rightarrow> str \<Rightarrow> str \<Rightarrow> str \<Rightarrow> request" where
  "request_for endpoint k auth_mode key_name =
     \<lparr>url = endpoint,
      headers =
        (if auth_mode = lit ''bearer'' then [(lit ''Authorization'', lit ''Bearer '' @ k)]
         else if auth_mode = lit ''api_key_header'' then [(key_name, k)]
         else []),
      params =
        (if auth_mode = lit ''query_key'' then Some [(lit ''key'', k)] else None)\<rparr>"

definition check_key_requests ::
  "(request \<Rightarrow> http_outcome) \<Rightarrow> str \<Rightarrow> str \<Rightarrow> str \<Rightarrow> str \<Rightarrow> int option \<times> str" where
  "check_key_requests get endpoint k auth_mode key_name =
     (case get (request_for endpoint k auth_mode key_name) of
        Response status_code body_text \<Rightarrow> (Some status_code, body_text)
      | Raised e \<Rightarrow> (None, e))"

section \<open>The fallback on urllib\<close>

text \<open>
  \<open>check_key_urllib\<close> builds the URL and the \<open>Request\<close> before its \<open>try\<close>.
  The constructor of \<open>Request\<close> unwraps the URL (\<open>urllib.parse.unwrap\<close>), cuts
  the fragment after the last \<open>#\<close>, and raises \<open>ValueError\<close> when what is left does
  not start with a scheme, that is with one or more characters other than \<open>/\<close> and
  \<open>:\<close> followed by \<open>:\<close>. Nothing catches this exception. An exception that
  nothing catches is recorded by its class; its text appears only in the traceback.
  \<open>quote\<close> stands for \<open>urllib.parse.quote\<close>.
\<close>

datatype crash = ValueError | OverflowError

definition unwrap :: "str \<Rightarrow> str" where
  "unwrap u0 =
     (let u = strip u0;
          u1 = (if take 1 u = [60] \<and> slice_from (- 1) u = [62]
                then strip (slice_from 1 (slice_to (- 1) u)) else u)
      in if take 4 u1 = lit ''URL:'' then strip (drop 4 u1) else u1)"

definition splittag :: "str \<Rightarrow> str" where
  "splittag u =
     (if 35 \<in> set u then rev (drop 1 (dropWhile (\<lambda>c. c \<noteq> 35) (rev u))) else u)"

definition has_scheme :: "str \<Rightarrow> bool" where
  "has_scheme u =
     (let pre = takeWhile (\<lambda>c. c \<noteq> 47 \<and> c \<noteq> 58) u
      in pre \<noteq> [] \<and> take 1 (drop (length pre) u) = [58])"

definition request_urllib :: "(str \<Rightarrow> str) \<Rightarrow> str \<Rightarrow> str \<Rightarrow> str \<Rightarrow> str \<Rightarrow> request" where
  "request_urllib quote endpoint k auth_mode key_name =
     \<lparr>url =
        (if auth_mode \<noteq> lit ''bearer'' \<and> auth_mode \<noteq> lit ''api_key_header'' \<and>
            auth_mode = lit ''query_key''
         then endpoint @ (if 63 \<in> set endpoint then lit ''&'' else lit ''?'') @
              lit ''key='' @ quote k
         else endpoint),
      headers =
        (if auth_mode = lit ''bearer'' then [(lit ''Authorization'', lit ''Bearer '' @ k)]
         else if auth_mode = lit ''api_key_header'' then [(key_name, k)]
         else []),
      params = None\<rparr>"

definition check_key_urllib ::
  "(str \<Rightarrow> str) \<Rightarrow> (request \<Rightarrow> http_outcome) \<Rightarrow> str \<Rightarrow> str \<Rightarrow> str \<Rightarrow> str \<Rightarrow>
     crash + int option \<times> str" where
  "check_key_urllib quote urlopen endpoint k auth_mode key_name =
     (let req = request_urllib quote endpoint k auth_mode key_name
      in if \<not> has_scheme (splittag (unwrap (url req))) then Inl ValueError
         else
           (case urlopen req of
              Response code body \<Rightarrow> Inr (Some code, body)
            | Raised e \<Rightarrow> Inr (None, e)))"

section \<open>The delay between two requests\<close>

text \<open>
  \<open>--delay\<close> is parsed by \<open>float\<close>, which accepts negative numbers, \<open>inf\<close> and
  \<open>nan\<close>. A float is \<open>Finite m e\<close>, the number \<open>m\<close> times two to the power
  \<open>e\<close>, an infinity, or not a number. \<open>time.sleep\<close> converts the delay to a signed
  64-bit count of nanoseconds and raises \<open>OverflowError\<close> when it does not fit,
  \<open>ValueError\<close> when the delay is not a number or is negative; otherwise it returns.
  The loop calls it outside any \<open>try\<close>.
\<close>

datatype pyfloat = Finite int int | PosInf | NegInf | NaN

definition fits_nanoseconds :: "int \<Rightarrow> int \<Rightarrow> bool" where
  "fits_nanoseconds m e \<longleftrightarrow>
     (if 0 \<le> e then \<bar>m\<bar> * 2 ^ nat e * 10 ^ 9 < 2 ^ 63
      else \<bar>m\<bar> * 10 ^ 9 < 2 ^ 63 * 2 ^ nat (- e))"

definition sleep :: "pyfloat \<Rightarrow> crash option" where
  "sleep d =
     (case d of
        NaN \<Rightarrow> Some ValueError
      | PosInf \<Rightarrow> Some OverflowError
      | NegInf \<Rightarrow> Some OverflowError
      | Finite m e \<Rightarrow>
          if \<not> fits_nanoseconds m e then Some OverflowError
          else if m < 0 then Some ValueError
          else None)"

section \<open>The validation loop\<close>

record result =
  index :: int
  key :: str
  masked :: str
  status :: "int option"
  ok :: bool
  "note" :: str

record debug =
  debug_index :: int
  debug_masked :: str
  debug_status :: "int option"
  debug_auth_mode :: str
  body_preview :: str

record args =
  "file" :: str
  endpoint :: str
  auth_mode :: str
  key_name :: str
  delay :: pyfloat
  debug_log :: str

text \<open>
  What the run depends on outside the program: the key file, whether the
  \<open>requests\<close> library could be imported, the network, \<open>urllib.parse.quote\<close>, the
  clock, the printed forms of the two output paths, and for each output file the text of
  the exception when opening it fails (\<open>None\<close> when the write succeeds). The network
  answers the request made after \<open>m\<close> earlier ones through \<open>net e m\<close>. Standard
  output is taken to accept every line printed.
\<close>

record env =
  key_file :: path_state
  requests_available :: bool
  net :: "nat \<Rightarrow> request \<Rightarrow> http_outcome"
  quote :: "str \<Rightarrow> str"
  now :: str
  debug_path :: str
  debug_fails :: "str option"
  aktif_path :: str
  aktif_fails :: "str option"

text \<open>The classification of one answer: the pair of \<open>ok\<close> and \<open>note\<close>.\<close>

definition classify :: "int option \<Rightarrow> str \<Rightarrow> bool \<times> str" where
  "classify st body =
     (case st of
        None \<Rightarrow> (False, lit ''Error: '' @ body)
      | Some code \<Rightarrow>
          if code = 200 then (True, lit ''Active'')
          else if code = 401 \<or> code = 403 then (False, lit ''Invalid / Unauthorized'')
          else (False, lit ''HTTP '' @ str_int code))"

text \<open>
  The state of the loop: the two lists it appends to, the lines printed, the requests
  handed to the HTTP library so far, and the exception that ended the loop, if any.
  \<open>check_key\<close> is the call of the loop, on \<open>requests\<close> when it was imported
  and on \<open>urllib\<close> otherwise. One pass of the loop prints its line, checks the key,
  appends the two records and sleeps; an exception raised by the check leaves the lists
  as they were, one raised by the sleep comes after the records were appended. Either
  ends the loop and the program.
\<close>

record loop_state =
  results :: "result list"
  debug_lines :: "debug list"
  printed :: "str list"
  sent :: "request list"
  raised :: "crash option"

definition request_of :: "args \<Rightarrow> env \<Rightarrow> str \<Rightarrow> request" where
  "request_of a e k =
     (if requests_available e then request_for (endpoint a) k (auth_mode a) (key_name a)
      else request_urllib (quote e) (endpoint a) k (auth_mode a) (key_name a))"

definition check_key :: "args \<Rightarrow> env \<Rightarrow> nat \<Rightarrow> str \<Rightarrow> crash + int option \<times> str" where
  "check_key a e m k =
     (if requests_available e
      then Inr (check_key_requests (net e m) (endpoint a) k (auth_mode a) (key_name a))
      else check_key_urllib (quote e) (net e m) (endpoint a) k (auth_mode a) (key_name a))"

text \<open>
  What the check returns when it returns: the status code and the body of a response, or
  \<open>None\<close> and the text of the exception that the \<open>try\<close> caught.
\<close>

definition answer :: "args \<Rightarrow> env \<Rightarrow> nat \<Rightarrow> str \<Rightarrow> int option \<times> str" where
  "answer a e m k =
     (case net e m (request_of a e k) of
        Response code body \<Rightarrow> (Some code, body)
      | Raised t \<Rightarrow> (None, t))"

definition loop_body :: "args \<Rightarrow> env \<Rightarrow> nat \<Rightarrow> loop_state \<Rightarrow> int \<times> str \<Rightarrow> loop_state" where
  "loop_body a e n s ik =
     (let i = fst ik; k = snd ik;
          m = mask_key k;
          line = lit ''['' @ str_int i @ lit ''/'' @ str_int (int n) @ lit ''] Checking '' @ m @ lit '' ...''
      in case check_key a e (length (sent s)) k of
           Inl ex \<Rightarrow> s\<lparr>printed := printed s @ [line], raised := Some ex\<rparr>
         | Inr (st, body) \<Rightarrow>
             (let (okv, nt) = classify st body
              in \<lparr>results = results s @
                    [\<lparr>index = i, key = k, masked = m, status = st, ok = okv, note = nt\<rparr>],
                  debug_lines = debug_lines s @
                    [\<lparr>debug_index = i, debug_masked = m, debug_status = st,
                      debug_auth_mode = auth_mode a,
                      body_preview =
                        (if length body > 1000 then slice_to 1000 body @ lit ''...'' else body)\<rparr>],
                  printed = printed s @ [line],
                  sent = sent s @ [request_of a e k],
                  raised = sleep (delay a)\<rparr>))"

fun run_loop :: "args \<Rightarrow> env \<Rightarrow> nat \<Rightarrow> loop_state \<Rightarrow> (int \<times> str) list \<Rightarrow> loop_state" where
  "run_loop a e n s [] = s"
| "run_loop a e n s (ik # rest) =
     (case raised (loop_body a e n s ik) of
        None \<Rightarrow> run_loop a e n (loop_body a e n s ik) rest
      | Some ex \<Rightarrow> loop_body a e n s ik)"

definition validate_keys :: "args \<Rightarrow> env \<Rightarrow> str list \<Rightarrow> loop_state" where
  "validate_keys a e keys =
     run_loop a e (length keys)
       \<lparr>results = [], debug_lines = [], printed = [], sent = [], raised = None\<rparr>
       (enumerate_from 1 keys)"

section \<open>The report order\<close>

text \<open>
  \<open>sorted\<close> with the key \<open>(0 if r['ok'] else 1, r['index'])\<close>: pairs compare
  lexicographically, and the sort is stable.
\<close>

definition sort_rank :: "result \<Rightarrow> int \<times> int" where
  "sort_rank r = (if ok r then 0 else 1, index r)"

definition results_sorted :: "result list \<Rightarrow> result list" where
  "results_sorted rs = sort_key sort_rank rs"

definition report_line :: "result \<Rightarrow> str" where
  "report_line r =
     (let status_text = (if ok r then lit ''ACTIVE'' else lit ''INVALID'');
          code = (case status r of Some c \<Rightarrow> str_int c | None \<Rightarrow> lit ''-'')
      in rjust 2 (str_int (index r)) @ lit ''. '' @ ljust 20 (masked r) @ lit '' | '' @
         ljust 7 status_text @ lit '' | '' @ ljust 5 code @ lit '' | '' @ note r)"

definition rule_line :: str where
  "rule_line = lit ''---------------------------------------------------------------''"

section \<open>The debug log\<close>

text \<open>
  The objects that \<open>json.dump\<close> is given (\<open>None\<close>, booleans, integers, strings,
  lists, dictionaries in insertion order), and its output with \<open>indent=2\<close> and
  \<open>ensure_ascii=False\<close>: only the quotation mark, the backslash and the control
  characters below 32 are escaped; every item starts on a line of its own, indented by
  two spaces per nesting level; an empty list or dictionary has no line break.
\<close>

datatype json = JNull | JBool bool | JInt int | JStr str | JList "json list" | JDict "(str \<times> json) list"

definition hexdigit :: "nat \<Rightarrow> nat" where
  "hexdigit d = (if d < 10 then 48 + d else 87 + d)"

definition json_escape :: "nat \<Rightarrow> str" where
  "json_escape c =
     (if c = 92 then [92, 92]
      else if c = 34 then [92, 34]
      else if c = 8 then [92, 98]
      else if c = 12 then [92, 102]
      else if c = 10 then [92, 110]
      else if c = 13 then [92, 114]
      else if c = 9 then [92, 116]
      else if c < 32 then [92, 117, 48, 48, hexdigit (c div 16), hexdigit (c mod 16)]
      else [c])"

definition json_string :: "str \<Rightarrow> str" where
  "json_string s = 34 # concat (map json_escape s) @ [34]"

definition newline_indent :: "nat \<Rightarrow> str" where
  "newline_indent lvl = 10 # replicate (2 * lvl) 32"

fun dumps :: "nat \<Rightarrow> json \<Rightarrow> str" where
  "dumps lvl JNull = lit ''null''"
| "dumps lvl (JBool b) = (if b then lit ''true'' else lit ''false'')"
| "dumps lvl (JInt i) = str_int i"
| "dumps lvl (JStr s) = json_string s"
| "dumps lvl (JList xs) =
     (if xs = [] then lit ''[]''
      else lit ''['' @ newline_indent (Suc lvl) @
           join (lit '','' @ newline_indent (Suc lvl)) (map (dumps (Suc lvl)) xs) @
           newline_indent lvl @ lit '']'')"
| "dumps lvl (JDict kvs) =
     (if kvs = [] then lit ''{}''
      else lit ''{'' @ newline_indent (Suc lvl) @
           join (lit '','' @ newline_indent (Suc lvl))
             (map (\<lambda>kv. json_string (fst kv) @ lit '': '' @ dumps (Suc lvl) (snd kv)) kvs) @
           newline_indent lvl @ lit ''}'')"

definition debug_json :: "debug \<Rightarrow> json" where
  "debug_json d =
     JDict [(lit ''index'', JInt (debug_index d)),
            (lit ''masked'', JStr (debug_masked d)),
            (lit ''status'', (case debug_status d of None \<Rightarrow> JNull | Some c \<Rightarrow> JInt c)),
            (lit ''auth_mode'', JStr (debug_auth_mode d)),
            (lit ''body_preview'', JStr (body_preview d))]"

text \<open>
  The text written to the debug log: the four writes before \<open>json.dump\<close>, then the
  dump and a line feed. \<open>t\<close> is what \<open>time.ctime()\<close> returns.
\<close>

definition debug_log_header :: "args \<Rightarrow> str \<Rightarrow> str" where
  "debug_log_header a t =
     lit ''DEBUG VALIDATION LOG'' @ [10] @
     lit ''Endpoint: '' @ endpoint a @ [10] @
     lit ''Requested at: '' @ t @ [10] @
     [10]"

definition debug_log_text :: "args \<Rightarrow> str \<Rightarrow> debug list \<Rightarrow> str" where
  "debug_log_text a t ds =
     debug_log_header a t @
     dumps 0 (JList (map debug_json ds)) @
     [10]"

section \<open>The active-keys file\<close>

text \<open>The writes of the loop over the sorted records, one after the other.\<close>

fun aktif_text :: "result list \<Rightarrow> str" where
  "aktif_text [] = []"
| "aktif_text (r # rs) =
     (if ok r then key r @ lit '','' @ [10] @ aktif_text rs else aktif_text rs)"

section \<open>The program\<close>

text \<open>
  What the run leaves behind: the exit code, the lines the program prints to standard
  output and to standard error, the requests handed to the HTTP library, the text written
  to each output file (\<open>None\<close> when the file is not written), and the exception that
  nothing caught, if any: the interpreter then prints a traceback and exits with code 1.
\<close>

record outcome =
  exit_code :: int
  stdout :: "str list"
  stderr :: "str list"
  requests :: "request list"
  debug_file :: "str option"
  aktif_file :: "str option"
  uncaught :: "crash option"

definition main :: "args \<Rightarrow> env \<Rightarrow> outcome" where
  "main a e =
     (case read_keys (file a) (key_file e) of
        Inl ex \<Rightarrow>
          \<lparr>exit_code = 2, stdout = [], stderr = [lit ''Error: '' @ exn_text ex],
           requests = [], debug_file = None, aktif_file = None, uncaught = None\<rparr>
      | Inr keys \<Rightarrow>
          if keys = [] then
            \<lparr>exit_code = 0, stdout = [lit ''No keys found in '' @ file a], stderr = [],
             requests = [], debug_file = None, aktif_file = None, uncaught = None\<rparr>
          else
            (let s = validate_keys a e keys
             in case raised s of
                  Some ex \<Rightarrow>
                    \<lparr>exit_code = 1, stdout = printed s, stderr = [], requests = sent s,
                     debug_file = None, aktif_file = None, uncaught = Some ex\<rparr>
                | None \<Rightarrow>
                    (let rs = results_sorted (results s);
                         report = [10 # lit ''Validation results (top -> bottom):'', rule_line] @
                                  map report_line rs @ [rule_line]
                     in \<lparr>exit_code = 0,
                         stdout = printed s @ report @
                           (case debug_fails e of
                              None \<Rightarrow> [lit ''Debug log written to: '' @ debug_path e]
                            | Some m \<Rightarrow> []) @
                           (case aktif_fails e of
                              None \<Rightarrow> [lit ''Active keys written to: '' @ aktif_path e]
                            | Some m \<Rightarrow> []),
                         stderr =
                           (case debug_fails e of
                              None \<Rightarrow> []
                            | Some m \<Rightarrow> [lit ''Failed to write debug log: '' @ m]) @
                           (case aktif_fails e of
                              None \<Rightarrow> []
                            | Some m \<Rightarrow> [lit ''Failed to write aktif.txt: '' @ m]),
                         requests = sent s,
                         debug_file =
                           (case debug_fails e of
                              None \<Rightarrow> Some (debug_log_text a (now e) (debug_lines s))
                            | Some m \<Rightarrow> None),
                         aktif_file =
                           (case aktif_fails e of
                              None \<Rightarrow> Some (aktif_text rs)
                            | Some m \<Rightarrow> None),
                         uncaught = None\<rparr>)))"

section \<open>Reading JSON\<close>

text \<open>
  What it means for a text to parse as JSON, as far as the debug log needs it: a reader
  for the JSON texts built from \<open>null\<close>, the booleans, integers, strings, arrays and
  objects, with the white space and the string escapes of JSON. Numbers with a fraction
  or an exponent and escaped surrogates are not read. \<open>scan_string\<close> reads a string
  after its opening quotation mark; \<open>scan_items\<close> reads the items of an array or of an
  object up to the closing bracket, given the reader of one item; the first argument of
  \<open>scan_items\<close> and \<open>scan_value\<close> bounds the number of items and the nesting
  depth, and \<open>json_loads\<close> gives them more than the length of the text.
\<close>

definition json_ws :: "nat \<Rightarrow> bool" where
  "json_ws c \<longleftrightarrow> c = 32 \<or> c = 9 \<or> c = 10 \<or> c = 13"

definition skip_ws :: "str \<Rightarrow> str" where
  "skip_ws s = dropWhile json_ws s"

definition hexval :: "nat \<Rightarrow> nat option" where
  "hexval h =
     (if 48 \<le> h \<and> h \<le> 57 then Some (h - 48)
      else if 97 \<le> h \<and> h \<le> 102 then Some (h - 87)
      else if 65 \<le> h \<and> h \<le> 70 then Some (h - 55)
      else None)"

definition unescape :: "nat \<Rightarrow> nat option" where
  "unescape e =
     (if e = 34 then Some 34
      else if e = 92 then Some 92
      else if e = 47 then Some 47
      else if e = 98 then Some 8
      else if e = 102 then Some 12
      else if e = 110 then Some 10
      else if e = 114 then Some 13
      else if e = 116 then Some 9
      else None)"

definition hex4 :: "str \<Rightarrow> nat option" where
  "hex4 hs =
     (case map hexval hs of
        [Some a, Some b, Some c, Some d] \<Rightarrow>
          (let v = ((a * 16 + b) * 16 + c) * 16 + d
           in if 55296 \<le> v \<and> v \<le> 57343 then None else Some v)
      | _ \<Rightarrow> None)"

definition push :: "'a \<Rightarrow> ('a list \<times> str) option \<Rightarrow> ('a list \<times> str) option" where
  "push x res = (case res of None \<Rightarrow> None | Some (xs, r) \<Rightarrow> Some (x # xs, r))"

function scan_string :: "str \<Rightarrow> (str \<times> str) option" where
  "scan_string [] = None"
| "scan_string (c # cs) =
     (if c = 34 then Some ([], cs)
      else if c = 92 then
        (if cs = [] then None
         else if hd cs = 117 then
           (case hex4 (take 4 (tl cs)) of
              None \<Rightarrow> None
            | Some v \<Rightarrow> push v (scan_string (drop 4 (tl cs))))
         else
           (case unescape (hd cs) of
              None \<Rightarrow> None
            | Some v \<Rightarrow> push v (scan_string (tl cs))))
      else if c < 32 then None
      else push c (scan_string cs))"
  by pat_completeness auto
termination
  by (relation "measure length") (auto simp add: less_Suc_eq_le intro: le_trans [OF diff_le_self])

definition is_digit :: "nat \<Rightarrow> bool" where
  "is_digit c \<longleftrightarrow> 48 \<le> c \<and> c \<le> 57"

definition digits_value :: "str \<Rightarrow> nat" where
  "digits_value ds = foldl (\<lambda>a d. 10 * a + (d - 48)) 0 ds"

definition scan_int :: "str \<Rightarrow> (int \<times> str) option" where
  "scan_int s =
     (let neg = (take 1 s = [45]);
          body = (if neg then drop 1 s else s);
          ds = takeWhile is_digit body;
          rest = dropWhile is_digit body
      in if ds = [] then None
         else if 1 < length ds \<and> take 1 ds = [48] then None
         else if take 1 rest = [46] \<or> take 1 rest = [101] \<or> take 1 rest = [69] then None
         else Some (if neg then - int (digits_value ds) else int (digits_value ds), rest))"

fun scan_items ::
  "nat \<Rightarrow> nat \<Rightarrow> (str \<Rightarrow> ('a \<times> str) option) \<Rightarrow> str \<Rightarrow> ('a list \<times> str) option" where
  "scan_items 0 close p s = None"
| "scan_items (Suc n) close p s =
     (case p (skip_ws s) of
        None \<Rightarrow> None
      | Some (x, r) \<Rightarrow>
          (case skip_ws r of
             [] \<Rightarrow> None
           | c # r' \<Rightarrow>
               if c = 44 then push x (scan_items n close p r')
               else if c = close then Some ([x], r')
               else None))"

definition scan_member ::
  "(str \<Rightarrow> (json \<times> str) option) \<Rightarrow> str \<Rightarrow> ((str \<times> json) \<times> str) option" where
  "scan_member p s =
     (case s of
        [] \<Rightarrow> None
      | c # r \<Rightarrow>
          if c = 34 then
            (case scan_string r of
               None \<Rightarrow> None
             | Some (k, r1) \<Rightarrow>
                 (case skip_ws r1 of
                    [] \<Rightarrow> None
                  | d # r2 \<Rightarrow>
                      if d = 58 then
                        (case p (skip_ws r2) of
                           None \<Rightarrow> None
                         | Some (v, r3) \<Rightarrow> Some ((k, v), r3))
                      else None))
          else None)"

primrec scan_value :: "nat \<Rightarrow> str \<Rightarrow> (json \<times> str) option" where
  "scan_value 0 s = None"
| "scan_value (Suc n) s =
     (case s of
        [] \<Rightarrow> None
      | c # r \<Rightarrow>
          if c = 91 then
            (if take 1 (skip_ws r) = [93] then Some (JList [], drop 1 (skip_ws r))
             else map_option (\<lambda>(xs, r'). (JList xs, r')) (scan_items n 93 (scan_value n) r))
          else if c = 123 then
            (if take 1 (skip_ws r) = [125] then Some (JDict [], drop 1 (skip_ws r))
             else map_option (\<lambda>(kvs, r'). (JDict kvs, r'))
                    (scan_items n 125 (scan_member (scan_value n)) r))
          else if c = 34 then map_option (\<lambda>(t, r'). (JStr t, r')) (scan_string r)
          else if startswith s (lit ''null'') then Some (JNull, drop 4 s)
          else if startswith s (lit ''true'') then Some (JBool True, drop 4 s)
          else if startswith s (lit ''false'') then Some (JBool False, drop 5 s)
          else map_option (\<lambda>(i, r'). (JInt i, r')) (scan_int s))"

definition json_loads :: "str \<Rightarrow> json option" where
  "json_loads s =
     (case scan_value (Suc (length s)) (skip_ws s) of
        None \<Rightarrow> None
      | Some (v, r) \<Rightarrow> if skip_ws r = [] then Some v else None)"

text \<open>
  What follows a value in the output of \<open>dumps\<close>: nothing, a comma or a line feed.
\<close>

definition int_end :: "str \<Rightarrow> bool" where
  "int_end r \<longleftrightarrow> (case r of [] \<Rightarrow> True | c # _ \<Rightarrow> c = 44 \<or> c = 10)"

section \<open>A sample run\<close>

text \<open>
  Concrete inputs for evaluating the program: the default arguments (the default delay
  0.35 is the float 6305039478318694 / 2^54), four keys, and a network that rejects the
  first key, accepts the second, fails on the third request and answers the fourth with a
  server error. Then a key file that lists one key twice, with a network that accepts it
  the first time only.
\<close>

definition example_args :: args where
  "example_args =
     \<lparr>file = lit ''api.txt'', endpoint = lit ''https://generativelanguage.googleapis.com/v1/models'',
      auth_mode = lit ''query_key'', key_name = lit ''x-goog-api-key'',
      delay = Finite 6305039478318694 (- 54), debug_log = lit ''validasi_debug.log''\<rparr>"

definition example_keys :: "str list" where
  "example_keys = [lit ''AIzaSyA-0001'', lit ''AIzaSyB-0002'', lit ''k3'', lit ''AIzaSyD-0004'']"

definition example_net :: "nat \<Rightarrow> request \<Rightarrow> http_outcome" where
  "example_net m r =
     (if m = 0 then Response 401 (lit ''{}'')
      else if m = 1 then Response 200 (lit ''{}'')
      else if m = 2 then Raised (lit ''timed out'')
      else Response 500 (lit ''server error''))"

definition example_env :: env where
  "example_env =
     \<lparr>key_file = Contents (lit ''# keys'' @ [10] @ lit ''  AIzaSyA-0001'' @ [10] @ [10] @
                   lit ''AIzaSyB-0002 '' @ [10] @ lit ''k3'' @ [10] @ lit ''AIzaSyD-0004''),
      requests_available = True, net = example_net, quote = (\<lambda>k. k),
      now = lit ''Tue Nov  3 17:25:00 2026'',
      debug_path = lit ''validasi_debug.log'', debug_fails = None,
      aktif_path = lit ''/home/user/aktif.txt'', aktif_fails = None\<rparr>"

definition example_results :: "result list" where
  "example_results =
     [\<lparr>index = 1, key = lit ''ka'', masked = lit ''ka...ka'', status = Some 401, ok = False,
       note = lit ''Invalid / Unauthorized''\<rparr>,
      \<lparr>index = 2, key = lit ''kb'', masked = lit ''kb...kb'', status = Some 200, ok = True,
       note = lit ''Active''\<rparr>,
      \<lparr>index = 3, key = lit ''kc'', masked = lit ''kc...kc'', status = None, ok = False,
       note = lit ''Error: timed out''\<rparr>,
      \<lparr>index = 4, key = lit ''kd'', masked = lit ''kd...kd'', status = Some 200, ok = True,
       note = lit ''Active''\<rparr>]"

definition duplicate_net :: "nat \<Rightarrow> request \<Rightarrow> http_outcome" where
  "duplicate_net m r = (if m = 0 then Response 200 (lit ''{}'') else Response 401 (lit ''{}''))"

definition duplicate_env :: env where
  "duplicate_env =
     example_env\<lparr>key_file := Contents (lit ''dup'' @ [10] @ lit ''dup''), net := duplicate_net\<rparr>"

section \<open>Slicing and masking\<close>

lemma slice_to_pos: "0 \<le> j \<Longrightarrow> slice_to j s = take (nat j) s"
  by (simp add: slice_to_def slice_bound_def)

lemma slice_from_neg: "j < 0 \<Longrightarrow> slice_from j s = drop (length s - nat (- j)) s"
proof -
  assume neg: "j < 0"
  have "nat (j + int (length s)) = length s - nat (- j)" if "\<not> j + int (length s) < 0"
    using that neg by arith
  moreover have "length s - nat (- j) = 0" if "j + int (length s) < 0"
    using that neg by arith
  ultimately show ?thesis
    using neg by (simp add: slice_from_def slice_bound_def)
qed

text \<open>
  Claim C3. For a key of at most 10 code points the mask is the first two code points of
  the key, three dots, and its last two code points; for a longer key it is the first four,
  three dots, and the last four. (\<open>take n\<close> is the first \<open>n\<close> elements and
  \<open>drop (length k - n)\<close> the last \<open>n\<close>, each the whole key when it is shorter.)
\<close>

theorem mask_key_shows_ends:
  "(length k \<le> 10 \<longrightarrow> mask_key k = take 2 k @ lit ''...'' @ drop (length k - 2) k) \<and>
   (10 < length k \<longrightarrow> mask_key k = take 4 k @ lit ''...'' @ drop (length k - 4) k)"
  by (simp add: mask_key_def slice_to_pos slice_from_neg)

theorem mask_key_shows_ends_witness:
  "mask_key (lit ''AIzaSy'') = lit ''AI...Sy'' \<and>
   mask_key (lit ''AIzaSyD-1234'') = lit ''AIza...1234''"
  using mask_key_shows_ends [of "lit ''AIzaSy''"] mask_key_shows_ends [of "lit ''AIzaSyD-1234''"]
  by (simp add: lit_def)

lemma short_list_cases:
  assumes "length k \<le> 4"
  obtains "k = []" | a where "k = [a]" | a b where "k = [a, b]"
    | a b c where "k = [a, b, c]" | a b c d where "k = [a, b, c, d]"
proof -
  from assms have "length k = 0 \<or> length k = 1 \<or> length k = 2 \<or> length k = 3 \<or> length k = 4"
    by arith
  then show thesis
    using that
    by (auto simp: length_Suc_conv numeral_eq_Suc)
qed

text \<open>
  Claim C9. \<open>mask_key\<close> returns a string for every key: the slices are clamped, so the
  empty key gives the three dots alone and the length of the mask is fixed by the length
  of the key. For a key of at most four code points the key is a subsequence of its mask,
  so every code point of the key is shown.
\<close>

theorem mask_key_total:
  "mask_key [] = lit ''...'' \<and>
   length (mask_key k) = (if length k \<le> 10 then 2 * min 2 (length k) + 3 else 11) \<and>
   (length k \<le> 4 \<longrightarrow> subseq k (mask_key k) \<and> set k \<subseteq> set (mask_key k))"
proof (intro conjI impI)
  show "mask_key [] = lit ''...''"
    by (simp add: mask_key_def slice_to_pos slice_from_neg)
  show "length (mask_key k) = (if length k \<le> 10 then 2 * min 2 (length k) + 3 else 11)"
    by (auto simp add: mask_key_def slice_to_pos slice_from_neg lit_def)
next
  assume short: "length k \<le> 4"
  then show sub: "subseq k (mask_key k)"
    by (cases k rule: short_list_cases)
       (simp_all add: mask_key_def slice_to_pos slice_from_neg lit_def subseq_Cons2_iff)
  then show "set k \<subseteq> set (mask_key k)"
    by (auto elim: list_emb_set)
qed

theorem mask_key_total_witness:
  "mask_key (lit ''abc'') = lit ''ab...bc'' \<and> subseq (lit ''abc'') (lit ''ab...bc'') \<and>
   set (lit ''abc'') \<subseteq> set (lit ''ab...bc'')"
proof -
  have m: "mask_key (lit ''abc'') = lit ''ab...bc''"
    by (simp add: mask_key_def slice_to_pos slice_from_neg lit_def)
  show ?thesis
    using mask_key_total [of "lit ''abc''"] unfolding m by (simp add: lit_def)
qed

section \<open>Exits before validation\<close>

text \<open>
  Claim C8. When the key file does not exist, the program prints the error to standard
  error and exits with code 2, which is not zero; it sends no request and writes neither
  output file.
\<close>

theorem missing_file_is_fatal:
  "key_file e = Missing \<Longrightarrow>
   exit_code (main a e) = 2 \<and> exit_code (main a e) \<noteq> 0 \<and>
   stderr (main a e) = [lit ''Error: Key file not found: '' @ file a] \<and>
   stdout (main a e) = [] \<and> requests (main a e) = [] \<and>
   debug_file (main a e) = None \<and> aktif_file (main a e) = None \<and>
   uncaught (main a e) = None"
  by (simp add: main_def read_keys_def lit_def)

theorem missing_file_is_fatal_witness:
  "exit_code (main example_args (example_env\<lparr>key_file := Missing\<rparr>)) = 2"
  using missing_file_is_fatal [of "example_env\<lparr>key_file := Missing\<rparr>" example_args]
  by simp

text \<open>
  Claim C10. When the key file is read and holds no key, the program prints
  \<open>No keys found in\<close> followed by the file name, exits with code 0, sends no request and
  writes neither the debug log nor the active-keys file.
\<close>

theorem no_keys_exits_cleanly:
  "read_keys (file a) (key_file e) = Inr [] \<Longrightarrow>
   main a e =
     \<lparr>exit_code = 0, stdout = [lit ''No keys found in '' @ file a], stderr = [],
      requests = [], debug_file = None, aktif_file = None, uncaught = None\<rparr>"
  by (simp add: main_def)

lemma read_keys_comment_only:
  "read_keys p (Contents (lit ''# no keys yet'')) = Inr []"
  by (simp add: read_keys_def splitlines_def lit_def strip_def isspace_def linebreak_def
      startswith_def)

theorem no_keys_exits_cleanly_witness:
  "main example_args (example_env\<lparr>key_file := Contents (lit ''# no keys yet'')\<rparr>) =
   \<lparr>exit_code = 0, stdout = [lit ''No keys found in api.txt''], stderr = [],
    requests = [], debug_file = None, aktif_file = None, uncaught = None\<rparr>"
  using no_keys_exits_cleanly [of example_args
      "example_env\<lparr>key_file := Contents (lit ''# no keys yet'')\<rparr>"]
  by (simp add: read_keys_comment_only) (simp add: example_args_def lit_def)

section \<open>The report order\<close>

lemma sort_rank_le:
  "sort_rank r \<le> sort_rank r' \<longleftrightarrow>
     (ok r \<and> \<not> ok r') \<or> (ok r = ok r' \<and> index r \<le> index r')"
  by (auto simp add: sort_rank_def less_eq_prod_def)

lemma results_sorted_nth_le:
  assumes "i < j" and "j < length rs"
  shows "sort_rank (results_sorted rs ! i) \<le> sort_rank (results_sorted rs ! j)"
proof -
  have "sorted (map sort_rank (results_sorted rs))"
    by (simp add: results_sorted_def)
  moreover have "j < length (map sort_rank (results_sorted rs))"
    using assms by (simp add: results_sorted_def)
  ultimately have "map sort_rank (results_sorted rs) ! i \<le> map sort_rank (results_sorted rs) ! j"
    using assms(1) by (simp add: sorted_iff_nth_mono_less del: length_map)
  then show ?thesis
    using assms by (simp add: results_sorted_def)
qed

lemma results_sorted_index_neq:
  assumes "distinct (map index rs)" and "i < j" and "j < length rs"
  shows "index (results_sorted rs ! i) \<noteq> index (results_sorted rs ! j)"
proof -
  have "mset (map index (results_sorted rs)) = mset (map index rs)"
    by (simp add: results_sorted_def)
  then have "distinct (map index (results_sorted rs))"
    using assms(1) by (metis mset_eq_imp_distinct_iff)
  moreover have "length (results_sorted rs) = length rs"
    by (simp add: results_sorted_def)
  ultimately have "map index (results_sorted rs) ! i \<noteq> map index (results_sorted rs) ! j"
    using assms(2,3) by (simp add: nth_eq_iff_index_eq del: nth_map)
  then show ?thesis
    using assms \<open>length (results_sorted rs) = length rs\<close> by simp
qed

text \<open>
  Claim C2. The sorted report holds the same records as the list it was made from. In it
  no record with \<open>ok\<close> false stands before a record with \<open>ok\<close> true, and two records of
  the same group stand in the order of their indexes; when the indexes are pairwise
  distinct, as those of the validation loop are, the order within a group is strictly
  increasing.
\<close>

theorem report_order:
  "mset (results_sorted rs) = mset rs \<and>
   (\<forall>i j. i < j \<and> j < length rs \<longrightarrow>
      (ok (results_sorted rs ! j) \<longrightarrow> ok (results_sorted rs ! i)) \<and>
      (ok (results_sorted rs ! i) = ok (results_sorted rs ! j) \<longrightarrow>
         index (results_sorted rs ! i) \<le> index (results_sorted rs ! j)) \<and>
      (distinct (map index rs) \<and> ok (results_sorted rs ! i) = ok (results_sorted rs ! j) \<longrightarrow>
         index (results_sorted rs ! i) < index (results_sorted rs ! j)))"
proof (intro conjI allI impI)
  show "mset (results_sorted rs) = mset rs"
    by (simp add: results_sorted_def)
next
  fix i j
  assume ij: "i < j \<and> j < length rs"
  then have le: "sort_rank (results_sorted rs ! i) \<le> sort_rank (results_sorted rs ! j)"
    by (simp add: results_sorted_nth_le)
  show "ok (results_sorted rs ! i)" if "ok (results_sorted rs ! j)"
    using le that by (auto simp add: sort_rank_le)
  show "index (results_sorted rs ! i) \<le> index (results_sorted rs ! j)"
    if "ok (results_sorted rs ! i) = ok (results_sorted rs ! j)"
    using le that by (auto simp add: sort_rank_le)
  show "index (results_sorted rs ! i) < index (results_sorted rs ! j)"
    if "distinct (map index rs) \<and> ok (results_sorted rs ! i) = ok (results_sorted rs ! j)"
  proof -
    have "index (results_sorted rs ! i) \<le> index (results_sorted rs ! j)"
      using le that by (auto simp add: sort_rank_le)
    moreover have "index (results_sorted rs ! i) \<noteq> index (results_sorted rs ! j)"
      using that ij by (simp add: results_sorted_index_neq)
    ultimately show ?thesis by simp
  qed
qed

section \<open>The keys read from the file\<close>

lemma keys_loop_filter:
  "keys_loop acc ls = acc @ filter (\<lambda>s. s \<noteq> [] \<and> \<not> startswith s (lit ''#'')) (map strip ls)"
  by (induction ls arbitrary: acc) (simp_all add: Let_def)

text \<open>
  Claim C7, as amended. \<open>read_keys\<close> returns, in file order, the stripped form of every
  line of the file, leaving out the lines whose stripped form is empty or starts with
  \<open>#\<close>. It returns the stripped forms, not the lines themselves.
\<close>

theorem read_keys_stripped_lines:
  "read_keys path (Contents text) =
     Inr (filter (\<lambda>s. s \<noteq> [] \<and> \<not> startswith s (lit ''#'')) (map strip (splitlines text)))"
  by (simp add: read_keys_def keys_loop_filter)

text \<open>
  The file whose only line is \<open>k1\<close> between two spaces: the line is neither blank nor a
  comment, and the key returned is \<open>k1\<close> without the spaces, not the line.
\<close>

theorem read_keys_strips_counterexample:
  "splitlines (lit '' k1 '') = [lit '' k1 ''] \<and>
   strip (lit '' k1 '') \<noteq> [] \<and> \<not> startswith (strip (lit '' k1 '')) (lit ''#'') \<and>
   read_keys (lit ''api.txt'') (Contents (lit '' k1 '')) = Inr [lit ''k1''] \<and>
   lit ''k1'' \<noteq> lit '' k1 ''"
  by (simp add: read_keys_def splitlines_def lit_def strip_def isspace_def linebreak_def
      startswith_def)

section \<open>Reading back what json.dump wrote\<close>

lemma skip_ws_stop: "\<not> json_ws c \<Longrightarrow> skip_ws (c # s) = c # s"
  by (simp add: skip_ws_def)

lemma skip_ws_newline_indent: "skip_ws (newline_indent l @ s) = skip_ws s"
  by (simp add: skip_ws_def newline_indent_def json_ws_def dropWhile_append)

lemma skip_ws_space: "skip_ws (32 # s) = skip_ws s"
  by (simp add: skip_ws_def json_ws_def)

lemma hexval_hexdigit: "d < 16 \<Longrightarrow> hexval (hexdigit d) = Some d"
  by (auto simp add: hexval_def hexdigit_def)

lemma hex4_control:
  assumes "c < 32"
  shows "hex4 [48, 48, hexdigit (c div 16), hexdigit (c mod 16)] = Some c"
proof -
  have "c div 16 < 16" "c mod 16 < 16"
    using assms by simp_all
  then have "map hexval [48, 48, hexdigit (c div 16), hexdigit (c mod 16)] =
      [Some 0, Some 0, Some (c div 16), Some (c mod 16)]"
    by (simp add: hexval_hexdigit) (simp add: hexval_def)
  moreover have "c div 16 * 16 + c mod 16 = c"
    by simp
  ultimately show ?thesis
    using assms by (simp add: hex4_def)
qed

lemma scan_string_escape: "scan_string (json_escape c @ s) = push c (scan_string s)"
proof -
  consider "c = 92" | "c = 34" | "c = 8" | "c = 12" | "c = 10" | "c = 13" | "c = 9"
    | "c < 32" "c \<noteq> 8" "c \<noteq> 12" "c \<noteq> 10" "c \<noteq> 13" "c \<noteq> 9"
    | "32 \<le> c" "c \<noteq> 92" "c \<noteq> 34"
    by linarith
  then show ?thesis
  proof cases
    case 8
    then have esc: "json_escape c = [92, 117, 48, 48, hexdigit (c div 16), hexdigit (c mod 16)]"
      by (simp add: json_escape_def)
    show ?thesis
      unfolding esc using hex4_control [OF 8(1)] by simp
  next
    case 9
    then show ?thesis
      by (simp add: json_escape_def)
  qed (simp_all add: json_escape_def unescape_def)
qed

lemma scan_string_escaped:
  "scan_string (concat (map json_escape t) @ 34 # r) = Some (t, r)"
  by (induction t) (simp_all add: scan_string_escape push_def)

lemma scan_string_json_string:
  "scan_string (tl (json_string t) @ r) = Some (t, r)"
  by (simp add: json_string_def scan_string_escaped)

lemma str_nat_digits: "c \<in> set (str_nat n) \<Longrightarrow> is_digit c"
proof (induction n arbitrary: c rule: str_nat.induct)
  case (1 n)
  show ?case
  proof (cases "n < 10")
    case True
    with "1.prems" show ?thesis
      by (simp add: str_nat.simps [of n] is_digit_def)
  next
    case False
    have "n mod 10 < 10" by simp
    with False "1.prems" "1.IH" show ?thesis
      by (auto simp add: str_nat.simps [of n] is_digit_def)
  qed
qed

lemma str_nat_nonempty: "str_nat n \<noteq> []"
  by (simp add: str_nat.simps [of n])

lemma digits_value_snoc: "digits_value (ds @ [d]) = 10 * digits_value ds + (d - 48)"
  by (simp add: digits_value_def)

lemma digits_value_str_nat: "digits_value (str_nat n) = n"
proof (induction n rule: str_nat.induct)
  case (1 n)
  show ?case
  proof (cases "n < 10")
    case True
    then show ?thesis
      by (simp add: str_nat.simps [of n] digits_value_def)
  next
    case False
    with "1.IH" show ?thesis
      by (simp add: str_nat.simps [of n] digits_value_snoc)
  qed
qed

lemma str_nat_no_leading_zero: "0 < n \<Longrightarrow> take 1 (str_nat n) \<noteq> [48]"
proof (induction n rule: str_nat.induct)
  case (1 n)
  show ?case
  proof (cases "n < 10")
    case True
    with "1.prems" show ?thesis
      by (simp add: str_nat.simps [of n])
  next
    case False
    then have "0 < n div 10" by simp
    with False "1.IH" have "take 1 (str_nat (n div 10)) \<noteq> [48]"
      by simp
    moreover have "str_nat (n div 10) \<noteq> []"
      by (rule str_nat_nonempty)
    ultimately show ?thesis
      using False by (cases "str_nat (n div 10)") (simp_all add: str_nat.simps [of n])
  qed
qed

lemma str_nat_short: "1 < length (str_nat n) \<Longrightarrow> 0 < n"
  by (cases "n = 0") (simp_all add: str_nat.simps [of 0])

lemma digits_then_end:
  assumes "int_end r"
  shows "takeWhile is_digit (str_nat n @ r) = str_nat n"
    and "dropWhile is_digit (str_nat n @ r) = r"
proof -
  have all: "\<forall>c \<in> set (str_nat n). is_digit c"
    by (simp add: str_nat_digits)
  have stop: "takeWhile is_digit r = []" "dropWhile is_digit r = r"
    using assms by (cases r; auto simp add: int_end_def is_digit_def)+
  show "takeWhile is_digit (str_nat n @ r) = str_nat n"
    using all stop by (simp add: takeWhile_append2)
  show "dropWhile is_digit (str_nat n @ r) = r"
    using all stop by (simp add: dropWhile_append2)
qed

lemma int_end_no_fraction:
  "int_end r \<Longrightarrow> take 1 r \<noteq> [46] \<and> take 1 r \<noteq> [101] \<and> take 1 r \<noteq> [69]"
  by (cases r) (auto simp add: int_end_def)

lemma str_nat_not_minus: "take 1 (str_nat n @ r) \<noteq> [45]"
proof -
  obtain c cs where "str_nat n = c # cs"
    using str_nat_nonempty [of n] by (cases "str_nat n") auto
  moreover from this have "is_digit c"
    using str_nat_digits [of c n] by simp
  ultimately show ?thesis
    by (auto simp add: is_digit_def)
qed

lemma scan_int_str_int:
  assumes "int_end r"
  shows "scan_int (str_int i @ r) = Some (i, r)"
proof (cases "i < 0")
  case True
  have "\<not> (1 < length (str_nat (nat (- i))) \<and> take 1 (str_nat (nat (- i))) = [48])"
    using str_nat_short str_nat_no_leading_zero by blast
  with True show ?thesis
    using int_end_no_fraction [OF assms]
    by (simp add: scan_int_def str_int_def Let_def digits_then_end [OF assms]
        str_nat_nonempty digits_value_str_nat)
next
  case False
  have "\<not> (1 < length (str_nat (nat i)) \<and> take 1 (str_nat (nat i)) = [48])"
    using str_nat_short str_nat_no_leading_zero by blast
  with False show ?thesis
    using int_end_no_fraction [OF assms] str_nat_not_minus [of "nat i" r]
    by (simp add: scan_int_def str_int_def Let_def digits_then_end [OF assms]
        str_nat_nonempty digits_value_str_nat)
qed

lemma int_end_newline_indent: "int_end (newline_indent l @ s)"
  by (simp add: int_end_def newline_indent_def)

lemma int_end_comma: "int_end (44 # s)"
  by (simp add: int_end_def)

lemma scan_items_join:
  assumes "xs \<noteq> []" and "length xs \<le> n"
    and item: "\<And>x r. x \<in> set xs \<Longrightarrow> int_end r \<Longrightarrow> p (f x @ r) = Some (x, r)"
    and start: "\<And>x r. x \<in> set xs \<Longrightarrow> skip_ws (f x @ r) = f x @ r"
    and close: "close \<noteq> 44" "\<not> json_ws close"
  shows "scan_items n close p
           (newline_indent l @ join (44 # newline_indent l) (map f xs) @
            newline_indent l' @ close # r) = Some (xs, r)"
  using assms(1,2) item start
proof (induction xs arbitrary: n)
  case Nil
  then show ?case by simp
next
  case (Cons x xs)
  from Cons.prems(2) obtain m where n: "n = Suc m" and m: "length xs \<le> m"
    by (cases n) auto
  have px: "\<And>r. int_end r \<Longrightarrow> p (f x @ r) = Some (x, r)"
    using Cons.prems(3) by simp
  have sx: "\<And>r. skip_ws (f x @ r) = f x @ r"
    using Cons.prems(4) by simp
  show ?case
  proof (cases xs)
    case Nil
    show ?thesis
      unfolding n Nil
      by (simp add: skip_ws_newline_indent sx px int_end_newline_indent
          skip_ws_stop [OF close(2)] close(1))
  next
    case (Cons y ys)
    have ih: "scan_items m close p
        (newline_indent l @ join (44 # newline_indent l) (map f xs) @
         newline_indent l' @ close # r) = Some (xs, r)"
      using Cons.IH [OF _ m] Cons.prems(3,4) Cons by simp
    have comma: "\<not> json_ws 44"
      by (simp add: json_ws_def)
    show ?thesis
      unfolding n using ih unfolding Cons
      by (simp add: skip_ws_newline_indent sx px int_end_comma skip_ws_stop [OF comma]
          push_def)
  qed
qed

lemma str_int_head:
  obtains c cs where "str_int i = c # cs" and "c = 45 \<or> is_digit c"
proof (cases "i < 0")
  case True
  then show ?thesis
    using that by (simp add: str_int_def)
next
  case False
  obtain c cs where eq: "str_nat (nat i) = c # cs"
    using str_nat_nonempty [of "nat i"] by (cases "str_nat (nat i)") auto
  then have "is_digit c"
    using str_nat_digits [of c "nat i"] by simp
  with eq False show ?thesis
    using that by (simp add: str_int_def)
qed

lemma join_head: "\<exists>t. join sep (y # ys) = y @ t"
  by (cases ys) simp_all

lemma join_nonempty_head:
  assumes "ys \<noteq> []"
  obtains t where "join sep ys = hd ys @ t"
  using assms join_head [of sep "hd ys" "tl ys"] by (cases ys) auto

lemma length_join_item: "y \<in> set ys \<Longrightarrow> length y \<le> length (join sep ys)"
  by (induction sep ys rule: join.induct) auto

lemma length_join_count: "\<forall>y \<in> set ys. y \<noteq> [] \<Longrightarrow> length ys \<le> length (join sep ys)"
proof (induction sep ys rule: join.induct)
  case (1 sep)
  then show ?case by simp
next
  case (2 sep x)
  then show ?case by (cases x) simp_all
next
  case (3 sep x y ys)
  then have "x \<noteq> []" by simp
  then have "1 \<le> length x" by (cases x) simp_all
  with 3 show ?case by simp
qed

text \<open>
  The output for a value starts with a character that is neither white space nor a
  closing bracket.
\<close>

lemma dumps_head:
  obtains c cs where "dumps lvl v = c # cs" and "\<not> json_ws c" and "c \<noteq> 93" and "c \<noteq> 125"
proof (cases v)
  case JNull
  then show ?thesis using that by (simp add: lit_def json_ws_def)
next
  case (JBool b)
  then show ?thesis using that by (cases b) (simp_all add: lit_def json_ws_def)
next
  case (JInt i)
  obtain c cs where "str_int i = c # cs" and "c = 45 \<or> is_digit c"
    by (rule str_int_head)
  with JInt show ?thesis
    using that by (auto simp add: json_ws_def is_digit_def)
next
  case (JStr t)
  then show ?thesis using that by (simp add: json_string_def json_ws_def)
next
  case (JList xs)
  then show ?thesis using that by (cases "xs = []") (simp_all add: lit_def json_ws_def)
next
  case (JDict kvs)
  then show ?thesis using that by (cases "kvs = []") (simp_all add: lit_def json_ws_def)
qed

lemma dumps_nonempty: "dumps lvl v \<noteq> []"
  by (rule dumps_head [of lvl v]) simp

lemma skip_ws_dumps: "skip_ws (dumps lvl v @ r) = dumps lvl v @ r"
  by (rule dumps_head [of lvl v]) (simp add: skip_ws_stop)

lemma scan_value_leaf:
  assumes "int_end r"
  shows "scan_value (Suc m) (lit ''null'' @ r) = Some (JNull, r)"
    and "scan_value (Suc m) (lit ''true'' @ r) = Some (JBool True, r)"
    and "scan_value (Suc m) (lit ''false'' @ r) = Some (JBool False, r)"
    and "scan_value (Suc m) (str_int i @ r) = Some (JInt i, r)"
    and "scan_value (Suc m) (json_string t @ r) = Some (JStr t, r)"
proof -
  show "scan_value (Suc m) (lit ''null'' @ r) = Some (JNull, r)"
    by (simp add: lit_def startswith_def)
  show "scan_value (Suc m) (lit ''true'' @ r) = Some (JBool True, r)"
    by (simp add: lit_def startswith_def)
  show "scan_value (Suc m) (lit ''false'' @ r) = Some (JBool False, r)"
    by (simp add: lit_def startswith_def)
  show "scan_value (Suc m) (json_string t @ r) = Some (JStr t, r)"
    by (simp add: json_string_def scan_string_escaped)
  obtain c cs where eq: "str_int i = c # cs" and c: "c = 45 \<or> is_digit c"
    by (rule str_int_head)
  have "scan_int (c # cs @ r) = Some (i, r)"
    using scan_int_str_int [OF assms, of i] eq by simp
  with c show "scan_value (Suc m) (str_int i @ r) = Some (JInt i, r)"
    unfolding eq by (auto simp add: lit_def startswith_def is_digit_def)
qed

lemma scan_member_dumps:
  assumes "p (dumps l v @ r) = Some (v, r)"
  shows "scan_member p ((json_string k @ lit '': '' @ dumps l v) @ r) = Some ((k, v), r)"
proof -
  have colon: "\<not> json_ws 58"
    by (simp add: json_ws_def)
  have eq: "(json_string k @ lit '': '' @ dumps l v) @ r =
      34 # (concat (map json_escape k) @ 34 # (58 # 32 # dumps l v @ r))"
    by (simp add: json_string_def lit_def)
  show ?thesis
    unfolding eq using assms
    by (simp add: scan_member_def scan_string_escaped skip_ws_stop [OF colon] skip_ws_space
        skip_ws_dumps)
qed

lemma skip_ws_json_string: "skip_ws (json_string k @ t) = json_string k @ t"
  by (simp add: json_string_def skip_ws_def json_ws_def)

lemma not_closing_after_indent:
  assumes "ys \<noteq> []" and "\<And>y. y \<in> set ys \<Longrightarrow> \<exists>c cs. y = c # cs \<and> \<not> json_ws c \<and> c \<noteq> close"
  shows "take 1 (skip_ws (newline_indent l @ join sep ys @ t)) \<noteq> [close]"
proof -
  obtain u where u: "join sep ys = hd ys @ u"
    using assms(1) by (rule join_nonempty_head)
  have "hd ys \<in> set ys"
    using assms(1) by simp
  then obtain c cs where "hd ys = c # cs" and "\<not> json_ws c" and "c \<noteq> close"
    using assms(2) by blast
  then show ?thesis
    by (simp add: skip_ws_newline_indent u skip_ws_stop)
qed

text \<open>
  Every value is read back from its output, whatever the indentation level, when the
  reader is given at least as many steps as the output has characters.
\<close>

lemma scan_value_dumps:
  "length (dumps lvl v) \<le> n \<Longrightarrow> int_end r \<Longrightarrow> scan_value n (dumps lvl v @ r) = Some (v, r)"
proof (induction v arbitrary: lvl n r)
  case JNull
  then obtain m where "n = Suc m" by (cases n) (auto simp add: lit_def)
  with JNull show ?case by (simp add: scan_value_leaf del: scan_value.simps)
next
  case (JBool b)
  then obtain m where "n = Suc m"
    using dumps_nonempty [of lvl "JBool b"] by (cases n) auto
  with JBool show ?case by (simp add: scan_value_leaf del: scan_value.simps)
next
  case (JInt i)
  then obtain m where "n = Suc m"
    using dumps_nonempty [of lvl "JInt i"] by (cases n) auto
  with JInt show ?case by (simp add: scan_value_leaf del: scan_value.simps)
next
  case (JStr t)
  then obtain m where "n = Suc m"
    using dumps_nonempty [of lvl "JStr t"] by (cases n) auto
  with JStr show ?case by (simp add: scan_value_leaf del: scan_value.simps)
next
  case (JList xs)
  show ?case
  proof (cases "xs = []")
    case True
    with JList.prems obtain m where "n = Suc m" by (cases n) (auto simp add: lit_def)
    with True show ?thesis
      by (simp add: lit_def skip_ws_def json_ws_def)
  next
    case False
    let ?f = "dumps (Suc lvl)"
    let ?j = "join (44 # newline_indent (Suc lvl)) (map ?f xs)"
    have shape: "dumps lvl (JList xs) @ r =
        91 # (newline_indent (Suc lvl) @ ?j @ newline_indent lvl @ 93 # r)"
      using False by (simp add: lit_def)
    have len: "length (dumps lvl (JList xs)) =
        length ?j + length (newline_indent (Suc lvl)) + length (newline_indent lvl) + 2"
      using False by (simp add: lit_def)
    from JList.prems(1) len obtain m where n: "n = Suc m" and m: "length ?j < m"
      by (cases n) auto
    have count: "length xs \<le> m"
      using length_join_count [of "map ?f xs" "44 # newline_indent (Suc lvl)"] m
      by (simp add: dumps_nonempty)
    have item: "scan_value m (?f x @ r') = Some (x, r')" if "x \<in> set xs" and "int_end r'" for x r'
    proof -
      have "length (?f x) \<le> length ?j"
        using that(1) by (intro length_join_item) simp
      with m have "length (?f x) \<le> m" by simp
      from JList.IH [OF that(1) this that(2)] show ?thesis .
    qed
    have first: "take 1 (skip_ws (newline_indent (Suc lvl) @ ?j @ newline_indent lvl @ 93 # r))
        \<noteq> [93]"
    proof (rule not_closing_after_indent)
      show "map ?f xs \<noteq> []" using False by simp
      fix y assume "y \<in> set (map ?f xs)"
      then obtain x where y: "y = ?f x" by auto
      show "\<exists>c cs. y = c # cs \<and> \<not> json_ws c \<and> c \<noteq> 93"
        unfolding y by (rule dumps_head [of "Suc lvl" x]) blast
    qed
    have "scan_items m 93 (scan_value m)
        (newline_indent (Suc lvl) @ ?j @ newline_indent lvl @ 93 # r) = Some (xs, r)"
      using False count item
      by (intro scan_items_join) (simp_all add: skip_ws_dumps json_ws_def)
    with first show ?thesis
      unfolding shape n by simp
  qed
next
  case (JDict kvs)
  show ?case
  proof (cases "kvs = []")
    case True
    with JDict.prems obtain m where "n = Suc m" by (cases n) (auto simp add: lit_def)
    with True show ?thesis
      by (simp add: lit_def skip_ws_def json_ws_def)
  next
    case False
    let ?f = "\<lambda>kv. json_string (fst kv) @ lit '': '' @ dumps (Suc lvl) (snd kv)"
    let ?j = "join (44 # newline_indent (Suc lvl)) (map ?f kvs)"
    have shape: "dumps lvl (JDict kvs) @ r =
        123 # (newline_indent (Suc lvl) @ ?j @ newline_indent lvl @ 125 # r)"
      using False by (simp add: lit_def)
    have len: "length (dumps lvl (JDict kvs)) =
        length ?j + length (newline_indent (Suc lvl)) + length (newline_indent lvl) + 2"
      using False by (simp add: lit_def)
    from JDict.prems(1) len obtain m where n: "n = Suc m" and m: "length ?j < m"
      by (cases n) auto
    have count: "length kvs \<le> m"
      using length_join_count [of "map ?f kvs" "44 # newline_indent (Suc lvl)"] m
      by (simp add: json_string_def)
    have item: "scan_member (scan_value m) (?f kv @ r') = Some (kv, r')"
      if "kv \<in> set kvs" and "int_end r'" for kv r'
    proof -
      have "length (?f kv) \<le> length ?j"
        using that(1) by (intro length_join_item) simp
      with m have "length (dumps (Suc lvl) (snd kv)) \<le> m" by simp
      moreover have "snd kv \<in> Basic_BNFs.snds kv"
        by (cases kv) simp
      ultimately have "scan_value m (dumps (Suc lvl) (snd kv) @ r') = Some (snd kv, r')"
        using JDict.IH [OF that(1) _ _ that(2)] by blast
      then show ?thesis
        using scan_member_dumps [where p = "scan_value m" and l = "Suc lvl" and v = "snd kv"
            and r = r' and k = "fst kv"]
        by simp
    qed
    have first: "take 1 (skip_ws (newline_indent (Suc lvl) @ ?j @ newline_indent lvl @ 125 # r))
        \<noteq> [125]"
    proof (rule not_closing_after_indent)
      show "map ?f kvs \<noteq> []" using False by simp
      fix y assume "y \<in> set (map ?f kvs)"
      then obtain kv where y: "y = ?f kv" by auto
      show "\<exists>c cs. y = c # cs \<and> \<not> json_ws c \<and> c \<noteq> 125"
        unfolding y by (simp add: json_string_def json_ws_def)
    qed
    have "scan_items m 125 (scan_member (scan_value m))
        (newline_indent (Suc lvl) @ ?j @ newline_indent lvl @ 125 # r) = Some (kvs, r)"
      using False count item
      by (intro scan_items_join) (simp_all add: skip_ws_json_string json_ws_def)
    with first show ?thesis
      unfolding shape n by simp
  qed
qed

text \<open>A value written by \<open>dumps\<close> and followed by a line feed is read back by \<open>json_loads\<close>.\<close>

lemma json_loads_dumps: "json_loads (dumps 0 v @ [10]) = Some v"
proof -
  have "scan_value (Suc (length (dumps 0 v @ [10]))) (dumps 0 v @ [10]) = Some (v, [10])"
    by (rule scan_value_dumps) (simp_all add: int_end_def)
  then show ?thesis
    by (simp add: json_loads_def skip_ws_dumps del: scan_value.simps)
       (simp add: skip_ws_def json_ws_def)
qed

section \<open>The records of the validation loop\<close>

lemma check_key_requests_answer:
  "requests_available e \<Longrightarrow> check_key a e m k = Inr (answer a e m k)"
  by (simp add: check_key_def check_key_requests_def answer_def request_of_def)

lemma check_key_returns:
  "check_key a e m k = Inr p \<Longrightarrow> p = answer a e m k"
  by (auto simp add: check_key_def check_key_requests_def check_key_urllib_def answer_def
      request_of_def Let_def split: if_splits http_outcome.splits)

lemma loop_body_crash:
  "check_key a e (length (sent s)) k = Inl ex \<Longrightarrow>
   results (loop_body a e n s (i, k)) = results s \<and>
   debug_lines (loop_body a e n s (i, k)) = debug_lines s \<and>
   sent (loop_body a e n s (i, k)) = sent s \<and>
   raised (loop_body a e n s (i, k)) = Some ex"
  by (simp add: loop_body_def Let_def)

lemma loop_body_results:
  "check_key a e (length (sent s)) k = Inr p \<Longrightarrow>
   results (loop_body a e n s (i, k)) = results s @
     [\<lparr>index = i, key = k, masked = mask_key k, status = fst p,
       ok = fst (classify (fst p) (snd p)), note = snd (classify (fst p) (snd p))\<rparr>]"
  by (simp add: loop_body_def Let_def split: prod.splits)

lemma loop_body_debug_lines:
  "check_key a e (length (sent s)) k = Inr p \<Longrightarrow>
   debug_lines (loop_body a e n s (i, k)) = debug_lines s @
     [\<lparr>debug_index = i, debug_masked = mask_key k, debug_status = fst p,
       debug_auth_mode = auth_mode a,
       body_preview =
         (if length (snd p) > 1000 then slice_to 1000 (snd p) @ lit ''...'' else snd p)\<rparr>]"
  by (simp add: loop_body_def Let_def split: prod.splits)

lemma loop_body_sent:
  "check_key a e (length (sent s)) k = Inr p \<Longrightarrow>
   sent (loop_body a e n s (i, k)) = sent s @ [request_of a e k] \<and>
   raised (loop_body a e n s (i, k)) = sleep (delay a)"
  by (simp add: loop_body_def Let_def split: prod.splits)

text \<open>
  The records of the loop are those of the first \<open>c\<close> keys, for some \<open>c\<close>; when no
  exception ended the loop, \<open>c\<close> is the number of keys.
\<close>

lemma run_loop_results:
  "\<exists>c \<le> length ks.
     results (run_loop a e n s (enumerate_from i ks)) = results s @
       map (\<lambda>j. \<lparr>index = i + int j, key = ks ! j, masked = mask_key (ks ! j),
         status = fst (answer a e (length (sent s) + j) (ks ! j)),
         ok = fst (classify (fst (answer a e (length (sent s) + j) (ks ! j)))
                            (snd (answer a e (length (sent s) + j) (ks ! j)))),
         note = snd (classify (fst (answer a e (length (sent s) + j) (ks ! j)))
                              (snd (answer a e (length (sent s) + j) (ks ! j))))\<rparr>)
         [0..<c] \<and>
     (raised (run_loop a e n s (enumerate_from i ks)) = None \<longrightarrow> c = length ks)"
proof (induction ks arbitrary: s i)
  case Nil
  then show ?case by simp
next
  case (Cons k ks)
  let ?s' = "loop_body a e n s (i, k)"
  show ?case
  proof (cases "check_key a e (length (sent s)) k")
    case (Inl ex)
    from loop_body_crash [OF Inl, of n i] show ?thesis
      by (intro exI [of _ 0]) simp
  next
    case (Inr p)
    then have p: "p = answer a e (length (sent s)) k"
      by (rule check_key_returns)
    note first = loop_body_results [OF Inr, of n i, unfolded p]
    note after = loop_body_sent [OF Inr, of n i]
    show ?thesis
    proof (cases "raised ?s'")
      case (Some ex)
      with first show ?thesis
        by (intro exI [of _ 1]) simp
    next
      case None
      from Cons.IH [of ?s' "i + 1"] obtain c where c: "c \<le> length ks"
        and rest: "results (run_loop a e n ?s' (enumerate_from (i + 1) ks)) = results ?s' @
          map (\<lambda>j. \<lparr>index = i + 1 + int j, key = ks ! j, masked = mask_key (ks ! j),
            status = fst (answer a e (length (sent ?s') + j) (ks ! j)),
            ok = fst (classify (fst (answer a e (length (sent ?s') + j) (ks ! j)))
                               (snd (answer a e (length (sent ?s') + j) (ks ! j)))),
            note = snd (classify (fst (answer a e (length (sent ?s') + j) (ks ! j)))
                                 (snd (answer a e (length (sent ?s') + j) (ks ! j))))\<rparr>)
            [0..<c]"
        and full: "raised (run_loop a e n ?s' (enumerate_from (i + 1) ks)) = None \<longrightarrow>
          c = length ks"
        by (elim exE conjE) (rule that, assumption+)
      show ?thesis
        using c full None
        by (intro exI [of _ "Suc c"])
           (simp add: rest first after map_upt_Suc add.assoc del: upt_Suc)
    qed
  qed
qed

lemma run_loop_debug_lines:
  "\<exists>c \<le> length ks.
     debug_lines (run_loop a e n s (enumerate_from i ks)) = debug_lines s @
       map (\<lambda>j. \<lparr>debug_index = i + int j, debug_masked = mask_key (ks ! j),
         debug_status = fst (answer a e (length (sent s) + j) (ks ! j)),
         debug_auth_mode = auth_mode a,
         body_preview =
           (if length (snd (answer a e (length (sent s) + j) (ks ! j))) > 1000
            then slice_to 1000 (snd (answer a e (length (sent s) + j) (ks ! j))) @ lit ''...''
            else snd (answer a e (length (sent s) + j) (ks ! j)))\<rparr>)
         [0..<c] \<and>
     (raised (run_loop a e n s (enumerate_from i ks)) = None \<longrightarrow> c = length ks)"
proof (induction ks arbitrary: s i)
  case Nil
  then show ?case by simp
next
  case (Cons k ks)
  let ?s' = "loop_body a e n s (i, k)"
  show ?case
  proof (cases "check_key a e (length (sent s)) k")
    case (Inl ex)
    from loop_body_crash [OF Inl, of n i] show ?thesis
      by (intro exI [of _ 0]) simp
  next
    case (Inr p)
    then have p: "p = answer a e (length (sent s)) k"
      by (rule check_key_returns)
    note first = loop_body_debug_lines [OF Inr, of n i, unfolded p]
    note after = loop_body_sent [OF Inr, of n i]
    show ?thesis
    proof (cases "raised ?s'")
      case (Some ex)
      with first show ?thesis
        by (intro exI [of _ 1]) simp
    next
      case None
      from Cons.IH [of ?s' "i + 1"] obtain c where c: "c \<le> length ks"
        and rest: "debug_lines (run_loop a e n ?s' (enumerate_from (i + 1) ks)) =
          debug_lines ?s' @
          map (\<lambda>j. \<lparr>debug_index = i + 1 + int j, debug_masked = mask_key (ks ! j),
            debug_status = fst (answer a e (length (sent ?s') + j) (ks ! j)),
            debug_auth_mode = auth_mode a,
            body_preview =
              (if length (snd (answer a e (length (sent ?s') + j) (ks ! j))) > 1000
               then slice_to 1000 (snd (answer a e (length (sent ?s') + j) (ks ! j))) @ lit ''...''
               else snd (answer a e (length (sent ?s') + j) (ks ! j)))\<rparr>)
            [0..<c]"
        and full: "raised (run_loop a e n ?s' (enumerate_from (i + 1) ks)) = None \<longrightarrow>
          c = length ks"
        by (elim exE conjE) (rule that, assumption+)
      show ?thesis
        using c full None
        by (intro exI [of _ "Suc c"])
           (simp add: rest first after map_upt_Suc add.assoc del: upt_Suc)
    qed
  qed
qed

lemma loop_body_requests:
  assumes "requests_available e"
  shows "raised (loop_body a e n s (i, k)) = sleep (delay a)"
    and "length (results (loop_body a e n s (i, k))) = Suc (length (results s))"
proof -
  have c: "check_key a e (length (sent s)) k = Inr (answer a e (length (sent s)) k)"
    using assms by (rule check_key_requests_answer)
  show "raised (loop_body a e n s (i, k)) = sleep (delay a)"
    using loop_body_sent [OF c] by simp
  show "length (results (loop_body a e n s (i, k))) = Suc (length (results s))"
    using loop_body_results [OF c] by simp
qed

lemma run_loop_completes:
  assumes "requests_available e" and "sleep (delay a) = None" and "raised s = None"
  shows "raised (run_loop a e n s (enumerate_from i ks)) = None"
  using assms(3)
proof (induction ks arbitrary: s i)
  case Nil
  then show ?case by simp
next
  case (Cons k ks)
  have "raised (loop_body a e n s (i, k)) = None"
    using loop_body_requests(1) [OF assms(1)] assms(2) by simp
  with Cons.IH [of "loop_body a e n s (i, k)" "i + 1"] show ?case
    by simp
qed


lemma validate_keys_results:
  "\<exists>c \<le> length keys.
     results (validate_keys a e keys) =
       map (\<lambda>j. \<lparr>index = 1 + int j, key = keys ! j, masked = mask_key (keys ! j),
         status = fst (answer a e j (keys ! j)),
         ok = fst (classify (fst (answer a e j (keys ! j))) (snd (answer a e j (keys ! j)))),
         note = snd (classify (fst (answer a e j (keys ! j))) (snd (answer a e j (keys ! j))))\<rparr>)
         [0..<c] \<and>
     (raised (validate_keys a e keys) = None \<longrightarrow> c = length keys)"
  using run_loop_results [of keys a e "length keys"
      "\<lparr>results = [], debug_lines = [], printed = [], sent = [], raised = None\<rparr>" 1]
  by (simp add: validate_keys_def)

lemma validate_keys_debug_lines:
  "\<exists>c \<le> length keys.
     debug_lines (validate_keys a e keys) =
       map (\<lambda>j. \<lparr>debug_index = 1 + int j, debug_masked = mask_key (keys ! j),
         debug_status = fst (answer a e j (keys ! j)),
         debug_auth_mode = auth_mode a,
         body_preview =
           (if length (snd (answer a e j (keys ! j))) > 1000
            then slice_to 1000 (snd (answer a e j (keys ! j))) @ lit ''...''
            else snd (answer a e j (keys ! j)))\<rparr>)
         [0..<c] \<and>
     (raised (validate_keys a e keys) = None \<longrightarrow> c = length keys)"
  using run_loop_debug_lines [of keys a e "length keys"
      "\<lparr>results = [], debug_lines = [], printed = [], sent = [], raised = None\<rparr>" 1]
  by (simp add: validate_keys_def cong: if_cong)

lemma validate_keys_results_nth:
  assumes "j < length (results (validate_keys a e keys))"
  shows "j < length keys"
    and "results (validate_keys a e keys) ! j =
       \<lparr>index = 1 + int j, key = keys ! j, masked = mask_key (keys ! j),
        status = fst (answer a e j (keys ! j)),
        ok = fst (classify (fst (answer a e j (keys ! j))) (snd (answer a e j (keys ! j)))),
        note = snd (classify (fst (answer a e j (keys ! j))) (snd (answer a e j (keys ! j))))\<rparr>"
proof -
  obtain c where c: "c \<le> length keys"
    and rs: "results (validate_keys a e keys) =
       map (\<lambda>j. \<lparr>index = 1 + int j, key = keys ! j, masked = mask_key (keys ! j),
         status = fst (answer a e j (keys ! j)),
         ok = fst (classify (fst (answer a e j (keys ! j))) (snd (answer a e j (keys ! j)))),
         note = snd (classify (fst (answer a e j (keys ! j))) (snd (answer a e j (keys ! j))))\<rparr>)
         [0..<c]"
    using validate_keys_results [of keys a e] by (elim exE conjE) (rule that, assumption+)
  from assms have j: "j < c"
    unfolding rs by simp
  with c show "j < length keys"
    by simp
  from j show "results (validate_keys a e keys) ! j =
       \<lparr>index = 1 + int j, key = keys ! j, masked = mask_key (keys ! j),
        status = fst (answer a e j (keys ! j)),
        ok = fst (classify (fst (answer a e j (keys ! j))) (snd (answer a e j (keys ! j)))),
        note = snd (classify (fst (answer a e j (keys ! j))) (snd (answer a e j (keys ! j))))\<rparr>"
    unfolding rs by simp
qed

lemma validate_keys_results_complete:
  assumes "raised (validate_keys a e keys) = None"
  shows "results (validate_keys a e keys) =
       map (\<lambda>j. \<lparr>index = 1 + int j, key = keys ! j, masked = mask_key (keys ! j),
         status = fst (answer a e j (keys ! j)),
         ok = fst (classify (fst (answer a e j (keys ! j))) (snd (answer a e j (keys ! j)))),
         note = snd (classify (fst (answer a e j (keys ! j))) (snd (answer a e j (keys ! j))))\<rparr>)
         [0..<length keys]"
  using validate_keys_results [of keys a e] assms by auto

lemma validate_keys_debug_lines_complete:
  assumes "raised (validate_keys a e keys) = None"
  shows "debug_lines (validate_keys a e keys) =
       map (\<lambda>j. \<lparr>debug_index = 1 + int j, debug_masked = mask_key (keys ! j),
         debug_status = fst (answer a e j (keys ! j)),
         debug_auth_mode = auth_mode a,
         body_preview =
           (if length (snd (answer a e j (keys ! j))) > 1000
            then slice_to 1000 (snd (answer a e j (keys ! j))) @ lit ''...''
            else snd (answer a e j (keys ! j)))\<rparr>)
         [0..<length keys]"
  using validate_keys_debug_lines [of keys a e] assms by auto


lemma validate_keys_completes:
  "requests_available e \<Longrightarrow> sleep (delay a) = None \<Longrightarrow> raised (validate_keys a e keys) = None"
  by (simp add: validate_keys_def run_loop_completes)



text \<open>
  Claim C1. A record of the loop is determined by the answer to its request: the record
  at position \<open>j\<close> by the answer to the request made after \<open>j\<close> earlier ones. When the
  request raised, the status is \<open>None\<close>, \<open>ok\<close> is false and the note is \<open>Error: \<close>
  followed by the text of the exception. When the status code is 200, \<open>ok\<close> is true and
  the note is \<open>Active\<close>. When it is 401 or 403, \<open>ok\<close> is false and the note is
  \<open>Invalid / Unauthorized\<close>. For every other code, \<open>ok\<close> is false and the note is
  \<open>HTTP \<close> followed by the code in decimal.
\<close>

theorem classification_by_outcome:
  assumes "j < length (results (validate_keys a e keys))"
  shows
    "case net e j (request_of a e (keys ! j)) of
       Raised t \<Rightarrow>
         status (results (validate_keys a e keys) ! j) = None \<and>
         \<not> ok (results (validate_keys a e keys) ! j) \<and>
         note (results (validate_keys a e keys) ! j) = lit ''Error: '' @ t
     | Response code body \<Rightarrow>
         status (results (validate_keys a e keys) ! j) = Some code \<and>
         (code = 200 \<longrightarrow>
            ok (results (validate_keys a e keys) ! j) \<and>
            note (results (validate_keys a e keys) ! j) = lit ''Active'') \<and>
         (code = 401 \<or> code = 403 \<longrightarrow>
            \<not> ok (results (validate_keys a e keys) ! j) \<and>
            note (results (validate_keys a e keys) ! j) = lit ''Invalid / Unauthorized'') \<and>
         (code \<noteq> 200 \<and> code \<noteq> 401 \<and> code \<noteq> 403 \<longrightarrow>
            \<not> ok (results (validate_keys a e keys) ! j) \<and>
            note (results (validate_keys a e keys) ! j) = lit ''HTTP '' @ str_int code)"
  by (simp add: validate_keys_results_nth(2) [OF assms] answer_def classify_def
      split: http_outcome.splits)

section \<open>The sample run, evaluated\<close>

lemma example_read_keys:
  "read_keys (file example_args) (key_file example_env) = Inr example_keys"
  by (simp add: read_keys_def splitlines_def lit_def strip_def isspace_def linebreak_def
      startswith_def example_args_def example_env_def example_keys_def)

lemma example_env_fields:
  "requests_available example_env" "net example_env = example_net"
  "debug_fails example_env = None" "aktif_fails example_env = None"
  by (simp_all add: example_env_def)

lemma example_sleep: "sleep (delay example_args) = None"
  by (simp add: example_args_def sleep_def fits_nanoseconds_def)


lemma example_keys_length: "length example_keys = 4" "example_keys \<noteq> []"
  by (simp_all add: example_keys_def)

lemma example_completes: "raised (validate_keys example_args example_env example_keys) = None"
  by (simp add: validate_keys_completes example_env_fields example_sleep)

lemma example_results_length:
  "length (results (validate_keys example_args example_env example_keys)) = 4"
  by (simp add: validate_keys_results_complete [OF example_completes] example_keys_length)



theorem classification_by_outcome_witness:
  "\<not> ok (results (validate_keys example_args example_env example_keys) ! 0) \<and>
   note (results (validate_keys example_args example_env example_keys) ! 0) =
     lit ''Invalid / Unauthorized'' \<and>
   ok (results (validate_keys example_args example_env example_keys) ! 1) \<and>
   note (results (validate_keys example_args example_env example_keys) ! 1) = lit ''Active'' \<and>
   \<not> ok (results (validate_keys example_args example_env example_keys) ! 2) \<and>
   note (results (validate_keys example_args example_env example_keys) ! 2) =
     lit ''Error: timed out'' \<and>
   \<not> ok (results (validate_keys example_args example_env example_keys) ! 3) \<and>
   note (results (validate_keys example_args example_env example_keys) ! 3) = lit ''HTTP 500''"
proof -
  have h500: "lit ''HTTP '' @ str_int 500 = lit ''HTTP 500''"
    by (simp add: str_int_def str_nat.simps lit_def)
  show ?thesis
    using classification_by_outcome [where j = 0 and keys = example_keys and e = example_env and a = example_args]
      classification_by_outcome [where j = 1 and keys = example_keys and e = example_env and a = example_args]
      classification_by_outcome [where j = 2 and keys = example_keys and e = example_env and a = example_args]
      classification_by_outcome [where j = 3 and keys = example_keys and e = example_env and a = example_args]
    by (simp add: example_results_length example_env_fields example_net_def h500)
       (simp add: lit_def)
qed

theorem report_order_witness:
  "map index (results_sorted example_results) = [2, 4, 1, 3] \<and>
   map ok (results_sorted example_results) = [True, True, False, False] \<and>
   mset (results_sorted example_results) = mset example_results \<and>
   index (results_sorted example_results ! 0) < index (results_sorted example_results ! 1) \<and>
   index (results_sorted example_results ! 2) < index (results_sorted example_results ! 3)"
proof -
  have len: "length example_results = 4"
    by (simp add: example_results_def)
  have d: "distinct (map index example_results)"
    by (simp add: example_results_def)
  have s: "results_sorted example_results =
      [example_results ! 1, example_results ! 3, example_results ! 0, example_results ! 2]"
    by (simp add: results_sorted_def example_results_def sort_rank_def less_eq_prod_def)
  have m: "map ok (results_sorted example_results) = [True, True, False, False]"
    "map index (results_sorted example_results) = [2, 4, 1, 3]"
    unfolding s by (simp_all add: example_results_def)
  have o: "ok (results_sorted example_results ! 0) = ok (results_sorted example_results ! 1)"
    "ok (results_sorted example_results ! 2) = ok (results_sorted example_results ! 3)"
    unfolding s by (simp_all add: example_results_def)
  from report_order [of example_results]
  have all: "\<forall>i j. i < j \<and> j < length example_results \<longrightarrow>
      (distinct (map index example_results) \<and>
       ok (results_sorted example_results ! i) = ok (results_sorted example_results ! j) \<longrightarrow>
       index (results_sorted example_results ! i) < index (results_sorted example_results ! j))"
    and ms: "mset (results_sorted example_results) = mset example_results"
    by blast+
  have "index (results_sorted example_results ! 0) < index (results_sorted example_results ! 1)"
    using all [rule_format, of 0 1] len d o(1) by simp
  moreover have "index (results_sorted example_results ! 2) < index (results_sorted example_results ! 3)"
    using all [rule_format, of 2 3] len d o(2) by simp
  ultimately show ?thesis
    using m ms by simp
qed

section \<open>The active-keys file\<close>

lemma aktif_text_concat:
  "aktif_text rs = concat (map (\<lambda>r. key r @ lit '','' @ [10]) (filter ok rs))"
  by (induction rs) simp_all

lemma validate_keys_index_increasing:
  "sorted_wrt (<) (map index (results (validate_keys a e keys)))"
proof -
  have "index (results (validate_keys a e keys) ! i) < index (results (validate_keys a e keys) ! j)"
    if "i < j" and "j < length (results (validate_keys a e keys))" for i j
    using that by (simp add: validate_keys_results_nth(2))
  then show ?thesis
    by (simp add: sorted_wrt_iff_nth_less)
qed

lemma validate_keys_keys:
  "r \<in> set (results (validate_keys a e keys)) \<Longrightarrow> key r \<in> set keys"
proof -
  assume "r \<in> set (results (validate_keys a e keys))"
  then obtain j where j: "j < length (results (validate_keys a e keys))"
    and r: "r = results (validate_keys a e keys) ! j"
    by (auto simp add: in_set_conv_nth)
  from validate_keys_results_nth [OF j] r show ?thesis
    by simp
qed

lemma filter_ok_results_sorted:
  assumes "sorted_wrt (<) (map index rs)"
  shows "filter ok (results_sorted rs) = filter ok rs"
proof -
  have "sorted_wrt (\<lambda>r r'. index r < index r') (filter ok rs)"
    using assms by (simp add: sorted_wrt_map sorted_wrt_filter)
  then have "sorted_wrt (\<lambda>r r'. sort_rank r \<le> sort_rank r') (filter ok rs)"
    by (rule sorted_wrt_mono_rel [rotated]) (auto simp add: sort_rank_le)
  then have "sorted (map sort_rank (filter ok rs))"
    by (simp add: sorted_wrt_map)
  then have "sort_key sort_rank (filter ok rs) = filter ok rs"
    by (rule sort_key_id_if_sorted)
  then show ?thesis
    by (simp add: results_sorted_def filter_sort)
qed

lemma splitlines_acc_plain:
  "\<not> linebreak c \<Longrightarrow> splitlines_acc cur (c # s) = splitlines_acc (cur @ [c]) s"
  by (cases s) (auto simp add: linebreak_def)

lemma splitlines_acc_newline:
  "splitlines_acc cur (10 # s) = cur # splitlines_acc [] s"
  by (cases s) (simp_all add: linebreak_def)

lemma splitlines_acc_line:
  "\<forall>c \<in> set l. \<not> linebreak c \<Longrightarrow>
   splitlines_acc cur (l @ 10 # s) = (cur @ l) # splitlines_acc [] s"
  by (induction l arbitrary: cur) (simp_all add: splitlines_acc_newline splitlines_acc_plain)

lemma splitlines_written_lines:
  assumes "\<forall>l \<in> set ls. \<forall>c \<in> set l. \<not> linebreak c"
  shows "splitlines (concat (map (\<lambda>l. l @ [10]) ls)) = ls"
  unfolding splitlines_def using assms
  by (induction ls) (simp_all add: splitlines_acc_line)

lemma splitlines_acc_no_linebreak:
  "(\<And>c. c \<in> set cur \<Longrightarrow> \<not> linebreak c) \<Longrightarrow> l \<in> set (splitlines_acc cur s) \<Longrightarrow>
   c \<in> set l \<Longrightarrow> \<not> linebreak c"
proof (induction cur s arbitrary: l c rule: splitlines_acc.induct)
  case (1 cur)
  from "1.prems"(2) have "l = cur"
    by (simp split: if_splits)
  with "1.prems"(1,3) show ?case by simp
next
  case (2 cur c')
  from "2.prems"(2) have "l = cur \<or> (l = cur @ [c'] \<and> \<not> linebreak c')"
    by (simp split: if_splits)
  with "2.prems"(1,3) show ?case by auto
next
  case (3 cur c' d cs)
  have empty: "\<And>x. x \<in> set [] \<Longrightarrow> \<not> linebreak x"
    by simp
  show ?case
  proof (cases "c' = 13 \<and> d = 10")
    case True
    with "3.prems"(2) have "l = cur \<or> l \<in> set (splitlines_acc [] cs)"
      by simp
    then show ?thesis
    proof
      assume "l = cur"
      with "3.prems"(1,3) show ?thesis by simp
    next
      assume "l \<in> set (splitlines_acc [] cs)"
      from "3.IH"(1) [OF True empty this "3.prems"(3)] show ?thesis .
    qed
  next
    case False
    note nf = this
    show ?thesis
    proof (cases "linebreak c'")
      case True
      with nf "3.prems"(2) have "l = cur \<or> l \<in> set (splitlines_acc [] (d # cs))"
        by (auto split: if_splits)
      then show ?thesis
      proof
        assume "l = cur"
        with "3.prems"(1,3) show ?thesis by simp
      next
        assume "l \<in> set (splitlines_acc [] (d # cs))"
        from "3.IH"(2) [OF nf True empty this "3.prems"(3)] show ?thesis .
      qed
    next
      case False
      have clean: "\<And>x. x \<in> set (cur @ [c']) \<Longrightarrow> \<not> linebreak x"
        using False "3.prems"(1) by auto
      from "3.prems"(2) nf False have "l \<in> set (splitlines_acc (cur @ [c']) (d # cs))"
        by (auto split: if_splits)
      from "3.IH"(3) [OF nf False clean this "3.prems"(3)] show ?thesis .
    qed
  qed
qed

lemma strip_subset: "set (strip l) \<subseteq> set l"
  unfolding strip_def
  by (metis set_rev set_dropWhileD subsetI)

lemma read_keys_no_linebreak:
  assumes "read_keys path p = Inr keys" and "k \<in> set keys" and "c \<in> set k"
  shows "\<not> linebreak c"
proof -
  from assms(1) obtain t where keys: "keys = keys_loop [] (splitlines t)"
    by (auto simp add: read_keys_def split: path_state.splits)
  with assms(2) obtain l where l: "l \<in> set (splitlines t)" and k: "k = strip l"
    by (auto simp add: keys_loop_filter)
  have cl: "c \<in> set l"
    using assms(3) k strip_subset [of l] by blast
  have ll: "l \<in> set (splitlines_acc [] t)"
    using l by (simp add: splitlines_def)
  have empty: "\<And>x. x \<in> set [] \<Longrightarrow> \<not> linebreak x"
    by simp
  from splitlines_acc_no_linebreak [OF empty ll cl] show ?thesis .
qed

lemma aktif_file_written:
  assumes "read_keys (file a) (key_file e) = Inr keys" and "keys \<noteq> []"
    and "raised (validate_keys a e keys) = None" and "aktif_fails e = None"
  shows "aktif_file (main a e) =
     Some (concat (map (\<lambda>r. key r @ lit '','' @ [10])
             (filter ok (results (validate_keys a e keys)))))"
  using assms
  by (simp add: main_def Let_def aktif_text_concat filter_ok_results_sorted
      validate_keys_index_increasing)

text \<open>
  Claim C5, as amended. When keys were read, the loop ran to its end and the active-keys
  file can be written, the file is the concatenation, over the records of the validation
  loop with \<open>ok\<close> true and in the order of the loop, of the key followed by a comma and
  a line feed. Read back line by line it gives exactly these keys, each with its comma,
  one per line, and the indexes of the records written are strictly increasing. A
  record with \<open>ok\<close> false writes no line, and a key is on a line of the file exactly
  when some record with that key has \<open>ok\<close> true: the key of a record with \<open>ok\<close>
  false is in the file when the same key was listed again and accepted, and on no line
  when the keys of the input are pairwise distinct.
\<close>

theorem active_keys_file_lines:
  assumes "read_keys (file a) (key_file e) = Inr keys" and "keys \<noteq> []"
    and "raised (validate_keys a e keys) = None" and "aktif_fails e = None"
  shows
    "aktif_file (main a e) =
       Some (concat (map (\<lambda>r. key r @ lit '','' @ [10])
               (filter ok (results (validate_keys a e keys))))) \<and>
     map_option splitlines (aktif_file (main a e)) =
       Some (map (\<lambda>r. key r @ lit '','') (filter ok (results (validate_keys a e keys)))) \<and>
     sorted_wrt (<) (map index (filter ok (results (validate_keys a e keys)))) \<and>
     (\<forall>k. k @ lit '','' \<in>
             set (map (\<lambda>r. key r @ lit '','') (filter ok (results (validate_keys a e keys)))) \<longleftrightarrow>
          (\<exists>r \<in> set (results (validate_keys a e keys)). ok r \<and> key r = k)) \<and>
     (distinct keys \<longrightarrow>
        (\<forall>r \<in> set (results (validate_keys a e keys)).
           \<not> ok r \<longrightarrow>
           key r @ lit '','' \<notin>
             set (map (\<lambda>r. key r @ lit '','')
                    (filter ok (results (validate_keys a e keys))))))"
proof -
  let ?rs = "results (validate_keys a e keys)"
  have written: "aktif_file (main a e) =
      Some (concat (map (\<lambda>r. key r @ lit '','' @ [10]) (filter ok ?rs)))"
    using assms by (rule aktif_file_written)
  have clean: "\<forall>l \<in> set (map (\<lambda>r. key r @ lit '','') (filter ok ?rs)). \<forall>c \<in> set l. \<not> linebreak c"
  proof (intro ballI)
    fix l c
    assume "l \<in> set (map (\<lambda>r. key r @ lit '','') (filter ok ?rs))" and c: "c \<in> set l"
    then obtain r where r: "r \<in> set ?rs" and l: "l = key r @ lit '',''"
      by auto
    from r have "key r \<in> set keys"
      by (rule validate_keys_keys)
    with c l show "\<not> linebreak c"
      using read_keys_no_linebreak [OF assms(1)]
      by (auto simp add: lit_def linebreak_def)
  qed
  have "concat (map (\<lambda>r. key r @ lit '','' @ [10]) (filter ok ?rs)) =
      concat (map (\<lambda>l. l @ [10]) (map (\<lambda>r. key r @ lit '','') (filter ok ?rs)))"
    by (simp add: comp_def)
  then have lines: "splitlines (concat (map (\<lambda>r. key r @ lit '','' @ [10]) (filter ok ?rs))) =
      map (\<lambda>r. key r @ lit '','') (filter ok ?rs)"
    using splitlines_written_lines [OF clean] by simp
  have increasing: "sorted_wrt (<) (map index (filter ok ?rs))"
    using validate_keys_index_increasing [of a e keys]
    by (simp add: sorted_wrt_map sorted_wrt_filter)
  have which: "k @ lit '','' \<in> set (map (\<lambda>r. key r @ lit '','') (filter ok ?rs)) \<longleftrightarrow>
      (\<exists>r \<in> set ?rs. ok r \<and> key r = k)" for k
    by auto
  have absent: "key r @ lit '','' \<notin> set (map (\<lambda>r. key r @ lit '','') (filter ok ?rs))"
    if d: "distinct keys" and r: "r \<in> set ?rs" and no: "\<not> ok r" for r
  proof
    assume "key r @ lit '','' \<in> set (map (\<lambda>r. key r @ lit '','') (filter ok ?rs))"
    then obtain r' where r': "r' \<in> set ?rs" "ok r'" and eq: "key r' = key r"
      by auto
    have mk: "map key ?rs = keys"
      by (simp add: validate_keys_results_complete [OF assms(3)] comp_def map_nth)
    have "distinct (map key ?rs)"
      unfolding mk by (rule d)
    then have "inj_on key (set ?rs)"
      by (simp only: distinct_map)
    with r r'(1) eq have "r' = r"
      by (simp add: inj_on_def)
    with r'(2) no show False
      by simp
  qed
  show ?thesis
    using written lines increasing which absent by simp
qed

lemma example_active:
  "filter ok (results (validate_keys example_args example_env example_keys)) =
     [\<lparr>index = 2, key = lit ''AIzaSyB-0002'', masked = mask_key (lit ''AIzaSyB-0002''),
       status = Some 200, ok = True, note = lit ''Active''\<rparr>]"
  unfolding validate_keys_results_complete [OF example_completes]
  by (simp add: example_keys_def example_env_fields example_net_def answer_def classify_def
      upt_rec)

theorem active_keys_file_lines_witness:
  "aktif_file (main example_args example_env) = Some (lit ''AIzaSyB-0002,'' @ [10]) \<and>
   map_option splitlines (aktif_file (main example_args example_env)) =
     Some [lit ''AIzaSyB-0002,'']"
  using active_keys_file_lines
    [OF example_read_keys example_keys_length(2) example_completes example_env_fields(4)]
  unfolding example_active by (simp add: lit_def splitlines_def linebreak_def)

lemma duplicate_env_fields:
  "requests_available duplicate_env" "net duplicate_env = duplicate_net"
  "aktif_fails duplicate_env = None"
  by (simp_all add: duplicate_env_def example_env_def)

lemma duplicate_read_keys:
  "read_keys (file example_args) (key_file duplicate_env) = Inr [lit ''dup'', lit ''dup'']"
  by (simp add: read_keys_def splitlines_def lit_def strip_def isspace_def linebreak_def
      startswith_def duplicate_env_def Let_def)

lemma duplicate_completes:
  "raised (validate_keys example_args duplicate_env [lit ''dup'', lit ''dup'']) = None"
  by (simp add: validate_keys_completes duplicate_env_fields example_sleep)

lemma duplicate_results:
  "results (validate_keys example_args duplicate_env [lit ''dup'', lit ''dup'']) =
     [\<lparr>index = 1, key = lit ''dup'', masked = mask_key (lit ''dup''),
       status = Some 200, ok = True, note = lit ''Active''\<rparr>,
      \<lparr>index = 2, key = lit ''dup'', masked = mask_key (lit ''dup''),
       status = Some 401, ok = False, note = lit ''Invalid / Unauthorized''\<rparr>]"
  unfolding validate_keys_results_complete [OF duplicate_completes]
  by (simp add: duplicate_env_fields duplicate_net_def answer_def classify_def upt_rec)

text \<open>
  The key file that lists \<open>dup\<close> twice, accepted at the first request and rejected at
  the second: the second record has \<open>ok\<close> false and the key \<open>dup\<close>, and \<open>dup,\<close> is
  the line of the file.
\<close>

theorem duplicate_key_counterexample:
  "read_keys (file example_args) (key_file duplicate_env) = Inr [lit ''dup'', lit ''dup''] \<and>
   key (results (validate_keys example_args duplicate_env [lit ''dup'', lit ''dup'']) ! 1) =
     lit ''dup'' \<and>
   \<not> ok (results (validate_keys example_args duplicate_env [lit ''dup'', lit ''dup'']) ! 1) \<and>
   aktif_file (main example_args duplicate_env) = Some (lit ''dup,'' @ [10])"
proof -
  have "aktif_file (main example_args duplicate_env) = Some (lit ''dup,'' @ [10])"
    unfolding aktif_file_written
      [OF duplicate_read_keys _ duplicate_completes duplicate_env_fields(3), simplified]
      duplicate_results
    by (simp add: lit_def)
  then show ?thesis
    using duplicate_read_keys by (simp add: duplicate_results)
qed

section \<open>The debug log\<close>

lemma json_loads_header: "json_loads (debug_log_header a t @ u) = None"
proof -
  have d: "\<not> json_ws 68"
    by (simp add: json_ws_def)
  obtain w where w: "debug_log_header a t @ u = 68 # w"
    by (simp add: debug_log_header_def lit_def)
  have "scan_int (68 # w) = None"
    by (simp add: scan_int_def is_digit_def)
  then have "scan_value (Suc n) (68 # w) = None" for n
    by (simp add: startswith_def lit_def)
  then show ?thesis
    unfolding w by (simp add: json_loads_def skip_ws_stop [OF d] del: scan_value.simps)
qed

lemma debug_file_written:
  assumes "read_keys (file a) (key_file e) = Inr keys" and "keys \<noteq> []"
    and "raised (validate_keys a e keys) = None" and "debug_fails e = None"
  shows "debug_file (main a e) =
     Some (debug_log_text a (now e) (debug_lines (validate_keys a e keys)))"
  using assms by (simp add: main_def Let_def)

text \<open>
  Claim C4, as amended. When keys were read, the loop ran to its end and the debug log
  can be written, the file is
  a preamble of four lines (a title, the endpoint, the time of the run and an empty line)
  followed by the output of \<open>json.dump\<close> for the list of the debug records and a line
  feed. The text after the preamble parses as the JSON array of these records, which are
  one per key, in input order. The file as a whole does not parse as JSON.
\<close>

theorem debug_log_preamble_then_array:
  assumes "read_keys (file a) (key_file e) = Inr keys" and "keys \<noteq> []"
    and "raised (validate_keys a e keys) = None" and "debug_fails e = None"
  shows
    "debug_file (main a e) =
       Some (debug_log_header a (now e) @
             dumps 0 (JList (map debug_json (debug_lines (validate_keys a e keys)))) @ [10]) \<and>
     json_loads (dumps 0 (JList (map debug_json (debug_lines (validate_keys a e keys)))) @ [10]) =
       Some (JList (map debug_json (debug_lines (validate_keys a e keys)))) \<and>
     length (debug_lines (validate_keys a e keys)) = length keys \<and>
     (\<forall>j < length keys.
        debug_index (debug_lines (validate_keys a e keys) ! j) = int j + 1 \<and>
        debug_masked (debug_lines (validate_keys a e keys) ! j) = mask_key (keys ! j)) \<and>
     map_option json_loads (debug_file (main a e)) = Some None"
proof -
  let ?ds = "debug_lines (validate_keys a e keys)"
  have written: "debug_file (main a e) =
      Some (debug_log_header a (now e) @ dumps 0 (JList (map debug_json ?ds)) @ [10])"
    using debug_file_written [OF assms] by (simp add: debug_log_text_def)
  have whole: "map_option json_loads (debug_file (main a e)) = Some None"
    unfolding written by (simp only: option.map json_loads_header)
  have array: "json_loads (dumps 0 (JList (map debug_json ?ds)) @ [10]) =
      Some (JList (map debug_json ?ds))"
    by (rule json_loads_dumps)
  have count: "length ?ds = length keys"
    by (simp add: validate_keys_debug_lines_complete [OF assms(3)])
  have each: "\<forall>j < length keys.
      debug_index (?ds ! j) = int j + 1 \<and> debug_masked (?ds ! j) = mask_key (keys ! j)"
    by (simp add: validate_keys_debug_lines_complete [OF assms(3)])
  from written array count each whole show ?thesis
    by (intro conjI)
qed

theorem debug_log_preamble_then_array_witness:
  "json_loads
     (dumps 0 (JList (map debug_json
        (debug_lines (validate_keys example_args example_env example_keys)))) @ [10]) =
     Some (JList (map debug_json
        (debug_lines (validate_keys example_args example_env example_keys)))) \<and>
   length (debug_lines (validate_keys example_args example_env example_keys)) = 4 \<and>
   debug_index (debug_lines (validate_keys example_args example_env example_keys) ! 3) = 4 \<and>
   map_option json_loads (debug_file (main example_args example_env)) = Some None"
proof -
  have keys: "example_keys \<noteq> []" "length example_keys = 4"
    by (simp_all add: example_keys_def)
  have ok: "debug_fails example_env = None"
    by (simp add: example_env_def)
  from debug_log_preamble_then_array [OF example_read_keys keys(1) example_completes ok]
  have array: "json_loads
      (dumps 0 (JList (map debug_json
         (debug_lines (validate_keys example_args example_env example_keys)))) @ [10]) =
      Some (JList (map debug_json
         (debug_lines (validate_keys example_args example_env example_keys))))"
    and count: "length (debug_lines (validate_keys example_args example_env example_keys)) =
      length example_keys"
    and each: "\<forall>j < length example_keys.
      debug_index (debug_lines (validate_keys example_args example_env example_keys) ! j) =
        int j + 1 \<and>
      debug_masked (debug_lines (validate_keys example_args example_env example_keys) ! j) =
        mask_key (example_keys ! j)"
    and whole: "map_option json_loads (debug_file (main example_args example_env)) = Some None"
    by blast+
  have "debug_index (debug_lines (validate_keys example_args example_env example_keys) ! 3) = 4"
    using each [rule_format, of 3] keys(2) by simp
  with array count whole keys(2) show ?thesis
    by (simp only:)
qed

text \<open>
  The debug log of the sample run starts with the title line, and does not parse as JSON.
\<close>

theorem debug_log_not_json_counterexample:
  "map_option (take 21) (debug_file (main example_args example_env)) =
     Some (lit ''DEBUG VALIDATION LOG'' @ [10]) \<and>
   map_option json_loads (debug_file (main example_args example_env)) = Some None"
proof -
  have keys: "example_keys \<noteq> []"
    by (simp add: example_keys_def)
  have ok: "debug_fails example_env = None"
    by (simp add: example_env_def)
  have "map_option json_loads (debug_file (main example_args example_env)) = Some None"
    unfolding debug_file_written [OF example_read_keys keys example_completes ok]
      debug_log_text_def
    by (simp only: option.map json_loads_header)
  moreover have "map_option (take 21) (debug_file (main example_args example_env)) =
      Some (lit ''DEBUG VALIDATION LOG'' @ [10])"
    unfolding debug_file_written [OF example_read_keys keys example_completes ok]
      debug_log_text_def
    by (simp add: debug_log_header_def lit_def)
  ultimately show ?thesis
    by (intro conjI)
qed

section \<open>The fallback without a scheme\<close>

text \<open>
  On the fallback, an endpoint without a scheme makes the constructor of \<open>Request\<close>
  raise before the \<open>try\<close>: the loop ends at the first key with no record, where
  \<open>check_key_requests\<close> would have caught the exception of the library and recorded it.
\<close>

lemma no_scheme: "\<not> has_scheme (splittag (unwrap (lit ''example.com/v1/models?key=k'')))"
  by (simp add: has_scheme_def splittag_def unwrap_def strip_def isspace_def lit_def
      slice_from_def slice_to_def slice_bound_def Let_def)

lemma urllib_without_scheme:
  "results (validate_keys
      (example_args\<lparr>endpoint := lit ''example.com/v1/models''\<rparr>)
      (example_env\<lparr>requests_available := False\<rparr>) [lit ''k'']) = [] \<and>
   raised (validate_keys
      (example_args\<lparr>endpoint := lit ''example.com/v1/models''\<rparr>)
      (example_env\<lparr>requests_available := False\<rparr>) [lit ''k'']) = Some ValueError"
proof -
  have u: "url (request_urllib (\<lambda>k. k) (lit ''example.com/v1/models'') (lit ''k'')
      (lit ''query_key'') n) = lit ''example.com/v1/models?key=k''" for n
    by (simp add: request_urllib_def lit_def)
  have "check_key (example_args\<lparr>endpoint := lit ''example.com/v1/models''\<rparr>)
      (example_env\<lparr>requests_available := False\<rparr>) 0 (lit ''k'') = Inl ValueError"
    by (simp add: check_key_def check_key_urllib_def Let_def u no_scheme example_args_def
        example_env_def)
  then show ?thesis
    by (simp add: validate_keys_def loop_body_def Let_def)
qed

end
